theory Spec2Isabelle
  imports Complex_Main
begin

section \<open>RefCord: the referral ledger of \<^verbatim>\<open>bot.py\<close>\<close>

text \<open>
  The bot keeps two SQLite tables (\<^verbatim>\<open>CREATE_TABLES_SQL\<close>):
  \<^verbatim>\<open>user_invites(guild_id, user_id, code PRIMARY KEY, uses)\<close> and the append-only
  \<^verbatim>\<open>join_events(guild_id, joined_user_id, inviter_code, ts)\<close>.
  A table is the list of its rows in insertion order; Python's unbounded integers and
  SQLite's INTEGER columns are \<open>int\<close>.
\<close>

record invite_row =
  guild_id :: int
  user_id :: int
  code :: string
  uses :: int

record join_event =
  ev_guild_id :: int
  joined_user_id :: int
  inviter_code :: string
  ts :: int

record database =
  user_invites :: "invite_row list"
  join_events :: "join_event list"

definition empty_db :: database where
  "empty_db = \<lparr>user_invites = [], join_events = []\<rparr>"

subsection \<open>\<^verbatim>\<open>add_or_upsert_invite_owner\<close>\<close>

text \<open>
  \<^verbatim>\<open>INSERT INTO user_invites (guild_id, user_id, code, uses)
  VALUES (?, ?, ?, COALESCE((SELECT uses FROM user_invites WHERE code=?), 0))
  ON CONFLICT(code) DO UPDATE SET user_id=excluded.user_id, guild_id=excluded.guild_id\<close>

  The row proposed for insertion carries the use count the scalar subquery finds (0 when
  it finds none). When a row with the code exists, the conflict clause rewrites only its
  owner and guild; otherwise the proposed row is appended.
\<close>

definition select_uses_where_code :: "invite_row list \<Rightarrow> string \<Rightarrow> int option" where
  "select_uses_where_code rows c = map_option uses (find (\<lambda>r. code r = c) rows)"

definition coalesce0 :: "int option \<Rightarrow> int" where
  "coalesce0 v = (case v of None \<Rightarrow> 0 | Some n \<Rightarrow> n)"

definition add_or_upsert_invite_owner :: "database \<Rightarrow> int \<Rightarrow> int \<Rightarrow> string \<Rightarrow> database" where
  "add_or_upsert_invite_owner db g u c =
     (let rows = user_invites db;
          excluded = \<lparr>guild_id = g, user_id = u, code = c,
                      uses = coalesce0 (select_uses_where_code rows c)\<rparr>
      in if list_ex (\<lambda>r. code r = c) rows
         then db\<lparr>user_invites :=
                  map (\<lambda>r. if code r = c
                           then r\<lparr>user_id := user_id excluded, guild_id := guild_id excluded\<rparr>
                           else r) rows\<rparr>
         else db\<lparr>user_invites := rows @ [excluded]\<rparr>)"

subsection \<open>\<^verbatim>\<open>increment_code_use\<close>\<close>

text \<open>
  Two statements and one commit on one connection:
  \<^verbatim>\<open>UPDATE user_invites SET uses = uses + 1 WHERE guild_id=? AND code=?\<close>, then
  \<^verbatim>\<open>INSERT INTO join_events (...) VALUES (?, ?, ?, strftime('%s','now'))\<close>, then
  \<^verbatim>\<open>db.commit()\<close>. The clock reading is the parameter \<open>now\<close>.
\<close>

definition sql_update_uses :: "int \<Rightarrow> string \<Rightarrow> database \<Rightarrow> database" where
  "sql_update_uses g c db =
     db\<lparr>user_invites :=
          map (\<lambda>r. if guild_id r = g \<and> code r = c then r\<lparr>uses := uses r + 1\<rparr> else r)
              (user_invites db)\<rparr>"

definition sql_insert_join_event :: "int \<Rightarrow> int \<Rightarrow> string \<Rightarrow> int \<Rightarrow> database \<Rightarrow> database" where
  "sql_insert_join_event g j c now db =
     db\<lparr>join_events := join_events db @
          [\<lparr>ev_guild_id = g, joined_user_id = j, inviter_code = c, ts = now\<rparr>]\<rparr>"

text \<open>
  The connection is opened with the defaults of Python's \<^verbatim>\<open>sqlite3\<close>: the first data
  statement opens a transaction, statements write to the connection's pending view,
  \<^verbatim>\<open>commit\<close> makes the pending view durable, and leaving the \<^verbatim>\<open>async with\<close> block
  (normally or by an exception) closes the connection, which discards what was not
  committed.
\<close>

record connection =
  durable :: database
  pending :: database

definition connect :: "database \<Rightarrow> connection" where
  "connect db = \<lparr>durable = db, pending = db\<rparr>"

definition execute :: "(database \<Rightarrow> database) \<Rightarrow> connection \<Rightarrow> connection" where
  "execute stmt conn = conn\<lparr>pending := stmt (pending conn)\<rparr>"

definition commit :: "connection \<Rightarrow> connection" where
  "commit conn = conn\<lparr>durable := pending conn\<rparr>"

definition close :: "connection \<Rightarrow> database" where
  "close conn = durable conn"

definition increment_code_use_steps ::
  "int \<Rightarrow> string \<Rightarrow> int \<Rightarrow> int \<Rightarrow> (connection \<Rightarrow> connection) list" where
  "increment_code_use_steps g c j now =
     [execute (sql_update_uses g c), execute (sql_insert_join_event g j c now), commit]"

text \<open>
  \<open>increment_code_use_interrupted k\<close> is what the database file holds when the body of
  \<^verbatim>\<open>increment_code_use\<close> fails after \<open>k\<close> of its three steps have run (\<open>k = 1\<close> is a
  failure between the UPDATE and the INSERT); with all three it is the function itself.
\<close>

definition increment_code_use_interrupted ::
  "nat \<Rightarrow> database \<Rightarrow> int \<Rightarrow> string \<Rightarrow> int \<Rightarrow> int \<Rightarrow> database" where
  "increment_code_use_interrupted k db g c j now =
     close (fold (\<lambda>step conn. step conn) (take k (increment_code_use_steps g c j now)) (connect db))"

definition increment_code_use :: "database \<Rightarrow> int \<Rightarrow> string \<Rightarrow> int \<Rightarrow> int \<Rightarrow> database" where
  "increment_code_use db g c j now = increment_code_use_interrupted 3 db g c j now"

subsection \<open>\<^verbatim>\<open>get_member_total_referrals\<close>\<close>

text \<open>
  \<^verbatim>\<open>SELECT COALESCE(SUM(uses), 0) FROM user_invites WHERE guild_id=? AND user_id=?\<close>;
  SQL's SUM over no rows is NULL. The Python then returns \<^verbatim>\<open>row[0] or 0\<close>.
\<close>

definition sql_sum_uses :: "invite_row list \<Rightarrow> int option" where
  "sql_sum_uses rows = (if rows = [] then None else Some (sum_list (map uses rows)))"

definition get_member_total_referrals :: "database \<Rightarrow> int \<Rightarrow> int \<Rightarrow> int" where
  "get_member_total_referrals db g u =
     (let row0 = coalesce0 (sql_sum_uses
                   (filter (\<lambda>r. guild_id r = g \<and> user_id r = u) (user_invites db)))
      in if row0 = 0 then 0 else row0)"

subsection \<open>Sequences of ledger calls\<close>

datatype ledger_call =
  RegisterOwnership int int string
| RecordUse int string int int

fun ledger_step :: "database \<Rightarrow> ledger_call \<Rightarrow> database" where
  "ledger_step db (RegisterOwnership g u c) = add_or_upsert_invite_owner db g u c"
| "ledger_step db (RecordUse g c j now) = increment_code_use db g c j now"

definition run_ledger :: "ledger_call list \<Rightarrow> database" where
  "run_ledger calls = foldl ledger_step empty_db calls"

text \<open>
  Two notions the claims about call sequences are stated with. \<open>join_events_for\<close> is
  the number of join events carrying a code
  (\<^verbatim>\<open>SELECT COUNT(*) FROM join_events WHERE inviter_code=?\<close>). \<open>targets_registered\<close>
  says of a call sequence, run from a given database, that every \<open>RecordUse\<close> names a
  code that has a row in the given guild when the call is made.
\<close>

definition join_events_for :: "database \<Rightarrow> string \<Rightarrow> nat" where
  "join_events_for d c = length (filter (\<lambda>e. inviter_code e = c) (join_events d))"

fun targets_registered :: "database \<Rightarrow> ledger_call list \<Rightarrow> bool" where
  "targets_registered d [] = True"
| "targets_registered d (RegisterOwnership g u c # rest) =
     targets_registered (ledger_step d (RegisterOwnership g u c)) rest"
| "targets_registered d (RecordUse g c j now # rest) =
     (list_ex (\<lambda>r. guild_id r = g \<and> code r = c) (user_invites d)
      \<and> targets_registered (ledger_step d (RecordUse g c j now)) rest)"

section \<open>Python values the bot relies on\<close>

datatype py_error = ValueError | KeyError | TypeError | AttributeError | OverflowError
  | JSONDecodeError

subsection \<open>\<^verbatim>\<open>int(s)\<close> and \<^verbatim>\<open>str(n)\<close> on ASCII text\<close>

text \<open>
  \<^verbatim>\<open>str.strip()\<close> removes the characters \<^verbatim>\<open>str.isspace\<close> accepts: on ASCII text the
  codes 9 to 13 and 28 to 32. \<^verbatim>\<open>int\<close> of an ASCII string skips less: surrounding tab,
  line feed, vertical tab, form feed, carriage return and space (codes 9 to 13 and 32);
  a file, group, record or unit separator (28 to 31) makes it raise. It then takes an
  optional sign and wants decimal digits, single underscores allowed between two
  digits; anything else is a ValueError (\<open>None\<close>). \<^verbatim>\<open>str\<close> of an integer is its
  shortest decimal form with a minus sign for negatives. Characters are bytes here, so
  only ASCII digits and ASCII whitespace are covered, and the interpreter's cap on the
  number of digits is left out.
\<close>

definition is_space :: "char \<Rightarrow> bool" where
  "is_space ch = (let n = (of_char ch :: nat) in (9 \<le> n \<and> n \<le> 13) \<or> (28 \<le> n \<and> n \<le> 32))"

definition is_int_space :: "char \<Rightarrow> bool" where
  "is_int_space ch = (let n = (of_char ch :: nat) in (9 \<le> n \<and> n \<le> 13) \<or> n = 32)"

definition is_digit :: "char \<Rightarrow> bool" where
  "is_digit ch = (let n = (of_char ch :: nat) in 48 \<le> n \<and> n \<le> 57)"

definition digit_val :: "char \<Rightarrow> nat" where
  "digit_val ch = of_char ch - 48"

definition py_strip :: "string \<Rightarrow> string" where
  "py_strip s = rev (dropWhile is_space (rev (dropWhile is_space s)))"

fun digits_val :: "nat \<Rightarrow> string \<Rightarrow> nat option" where
  "digits_val acc [] = Some acc"
| "digits_val acc (ch # cs) =
     (if is_digit ch then digits_val (acc * 10 + digit_val ch) cs
      else if ch = CHR ''_'' then
        (case cs of
           [] \<Rightarrow> None
         | d # ds \<Rightarrow> if is_digit d then digits_val (acc * 10 + digit_val d) ds else None)
      else None)"

definition unsigned_val :: "string \<Rightarrow> nat option" where
  "unsigned_val s =
     (case s of
        [] \<Rightarrow> None
      | ch # cs \<Rightarrow> if is_digit ch then digits_val (digit_val ch) cs else None)"

definition int_strip :: "string \<Rightarrow> string" where
  "int_strip s = rev (dropWhile is_int_space (rev (dropWhile is_int_space s)))"

definition py_int :: "string \<Rightarrow> int option" where
  "py_int s =
     (case int_strip s of
        [] \<Rightarrow> None
      | ch # cs \<Rightarrow>
          if ch = CHR ''-'' then map_option (\<lambda>n. - int n) (unsigned_val cs)
          else if ch = CHR ''+'' then map_option int (unsigned_val cs)
          else map_option int (unsigned_val (ch # cs)))"

definition digit_char :: "nat \<Rightarrow> char" where
  "digit_char d = char_of (48 + d)"

fun nat_digits :: "nat \<Rightarrow> string" where
  "nat_digits n = (if n < 10 then [digit_char n] else nat_digits (n div 10) @ [digit_char (n mod 10)])"

declare nat_digits.simps [simp del]

definition py_str :: "int \<Rightarrow> string" where
  "py_str n = (if n < 0 then CHR ''-'' # nat_digits (nat (- n)) else nat_digits (nat n))"

subsection \<open>Parsed JSON, and \<^verbatim>\<open>int(v)\<close> on a JSON value\<close>

text \<open>
  What \<^verbatim>\<open>json.loads\<close> returns: \<^verbatim>\<open>None\<close>, a bool, an int, a float (a finite one is a
  rational; \<^verbatim>\<open>NaN\<close> and the two infinities are accepted by the parser too), a string, a
  list or a dict with string keys.
\<close>

datatype json =
  JNull
| JBool bool
| JInt int
| JFloat rat
| JNaN
| JInfinity bool
| JStr string
| JArr "json list"
| JObj "(string \<times> json) list"

definition trunc :: "rat \<Rightarrow> int" where
  "trunc q = (if 0 \<le> q then \<lfloor>q\<rfloor> else \<lceil>q\<rceil>)"

fun int_of_json :: "json \<Rightarrow> py_error + int" where
  "int_of_json JNull = Inl TypeError"
| "int_of_json (JBool b) = Inr (if b then 1 else 0)"
| "int_of_json (JInt n) = Inr n"
| "int_of_json (JFloat q) = Inr (trunc q)"
| "int_of_json JNaN = Inl ValueError"
| "int_of_json (JInfinity _) = Inl OverflowError"
| "int_of_json (JStr s) = (case py_int s of None \<Rightarrow> Inl ValueError | Some n \<Rightarrow> Inr n)"
| "int_of_json (JArr _) = Inl TypeError"
| "int_of_json (JObj _) = Inl TypeError"

section \<open>Rewards configuration\<close>

text \<open>
  \<^verbatim>\<open>REFERRAL_REWARDS: Dict[str, Dict[str, int]]\<close>: guild id (as text) to threshold (as
  text) to role id. A dict is the list of its items.
\<close>

type_synonym rewards = "(string \<times> (string \<times> int) list) list"

subsection \<open>\<^verbatim>\<open>load_rewards_config\<close>\<close>

text \<open>
  The dict comprehension \<^verbatim>\<open>{str(k): int(v) for k, v in mapping.items()}\<close>: the keys of a
  parsed JSON object are strings already; \<^verbatim>\<open>.items()\<close> exists on a dict only.
\<close>

fun convert_items :: "(string \<times> json) list \<Rightarrow> py_error + (string \<times> int) list" where
  "convert_items [] = Inr []"
| "convert_items ((k, v) # kvs) =
     (case int_of_json v of
        Inl e \<Rightarrow> Inl e
      | Inr n \<Rightarrow> (case convert_items kvs of Inl e \<Rightarrow> Inl e | Inr r \<Rightarrow> Inr ((k, n) # r)))"

definition convert_mapping :: "json \<Rightarrow> py_error + (string \<times> int) list" where
  "convert_mapping m = (case m of JObj kvs \<Rightarrow> convert_items kvs | _ \<Rightarrow> Inl AttributeError)"

text \<open>The \<^verbatim>\<open>for g, mapping in list(data.items())\<close> loop: the first failure leaves it.\<close>

fun convert_guilds :: "(string \<times> json) list \<Rightarrow> py_error + rewards" where
  "convert_guilds [] = Inr []"
| "convert_guilds ((g, m) # rest) =
     (case convert_mapping m of
        Inl e \<Rightarrow> Inl e
      | Inr mapping \<Rightarrow>
          (case convert_guilds rest of Inl e \<Rightarrow> Inl e | Inr r \<Rightarrow> Inr ((g, mapping) # r)))"

definition parse_rewards :: "(string \<Rightarrow> json option) \<Rightarrow> string \<Rightarrow> py_error + rewards" where
  "parse_rewards json_loads raw =
     (case json_loads raw of
        None \<Rightarrow> Inl JSONDecodeError
      | Some data \<Rightarrow> (case data of JObj items \<Rightarrow> convert_guilds items | _ \<Rightarrow> Inl AttributeError))"

datatype diagnostic = Invalid_REFERRAL_REWARDS_JSON py_error

text \<open>
  \<open>getenv\<close> is the value of the environment variable if set, \<open>json_loads\<close> the JSON
  parser (\<open>None\<close> when it raises). The result is the returned dict and what was logged
  at error level. Every exception of the body is caught by \<^verbatim>\<open>except Exception\<close>.
\<close>

definition load_rewards_config ::
  "(string \<Rightarrow> json option) \<Rightarrow> string option \<Rightarrow> rewards \<times> diagnostic list" where
  "load_rewards_config json_loads getenv =
     (let raw = py_strip (case getenv of None \<Rightarrow> [] | Some s \<Rightarrow> s)
      in if raw = [] then ([], [])
         else (case parse_rewards json_loads raw of
                 Inr data \<Rightarrow> (data, [])
               | Inl e \<Rightarrow> ([], [Invalid_REFERRAL_REWARDS_JSON e])))"

subsection \<open>\<^verbatim>\<open>next_award_roles_for\<close>\<close>

text \<open>
  \<^verbatim>\<open>mapping[k]\<close> on a dict; \<^verbatim>\<open>int(t)\<close> over the keys raises at the first key that is no
  integer; \<^verbatim>\<open>max\<close> of a non-empty list.
\<close>

fun roles_for :: "(string \<times> int) list \<Rightarrow> int list \<Rightarrow> py_error + int list" where
  "roles_for mapping [] = Inr []"
| "roles_for mapping (t # rest) =
     (case map_of mapping (py_str t) of
        None \<Rightarrow> Inl KeyError
      | Some role \<Rightarrow>
          (case roles_for mapping rest of Inl e \<Rightarrow> Inl e | Inr rs \<Rightarrow> Inr (role # rs)))"

definition next_award_roles_for :: "rewards \<Rightarrow> int \<Rightarrow> int \<Rightarrow> py_error + (int option \<times> int list)" where
  "next_award_roles_for REFERRAL_REWARDS g total_referrals =
     (let mapping = (case map_of REFERRAL_REWARDS (py_str g) of None \<Rightarrow> [] | Some m \<Rightarrow> m)
      in if mapping = [] then Inr (None, [])
         else (case those (map (\<lambda>(k, v). py_int k) mapping) of
                 None \<Rightarrow> Inl ValueError
               | Some ints \<Rightarrow>
                   (let thresholds = sort ints;
                        eligible = filter (\<lambda>t. t \<le> total_referrals) thresholds
                    in if eligible = [] then Inr (None, [])
                       else (let best = Max (set eligible)
                             in case map_of mapping (py_str best) of
                                  None \<Rightarrow> Inl KeyError
                                | Some role \<Rightarrow>
                                    (case roles_for mapping eligible of
                                       Inl e \<Rightarrow> Inl e
                                     | Inr rs \<Rightarrow> Inr (Some role, rs))))))"

section \<open>Invite snapshots and the join handler\<close>

text \<open>
  What \<^verbatim>\<open>guild.invites()\<close> lists: a code and a use count that may be \<^verbatim>\<open>None\<close>. The call
  returns the list, raises \<^verbatim>\<open>discord.Forbidden\<close>, or raises something else.
\<close>

record invite =
  inv_code :: string
  inv_uses :: "int option"

datatype fetch_result = Fetched "invite list" | Forbidden | Failed

text \<open>What the handler reads of the guild: its id, and the answers of \<^verbatim>\<open>get_role\<close>,
  \<^verbatim>\<open>get_member\<close> and \<^verbatim>\<open>role in member.roles\<close>.\<close>

record guild =
  guild_ident :: int
  role_exists :: "int \<Rightarrow> bool"
  member_exists :: "int \<Rightarrow> bool"
  member_has_role :: "int \<Rightarrow> int \<Rightarrow> bool"

record bot_state =
  invites_cache :: "int \<rightharpoonup> (string \<rightharpoonup> int)"
  ledger :: database
  rewards_config :: rewards
  add_roles_calls :: "(int \<times> int) list"

definition uses_or_0 :: "invite \<Rightarrow> int" where
  "uses_or_0 iv = (case inv_uses iv of None \<Rightarrow> 0 | Some n \<Rightarrow> if n = 0 then 0 else n)"

text \<open>\<^verbatim>\<open>{inv.code: (inv.uses or 0) for inv in invites}\<close>: a later item overwrites.\<close>

definition snapshot_of :: "invite list \<Rightarrow> (string \<rightharpoonup> int)" where
  "snapshot_of invs = foldl (\<lambda>m iv. m(inv_code iv \<mapsto> uses_or_0 iv)) Map.empty invs"

definition refresh_guild_invites :: "int \<Rightarrow> fetch_result \<Rightarrow> bot_state \<Rightarrow> bot_state" where
  "refresh_guild_invites g fetched st =
     (case fetched of
        Fetched invs \<Rightarrow> st\<lparr>invites_cache := (invites_cache st)(g \<mapsto> snapshot_of invs)\<rparr>
      | Forbidden \<Rightarrow> st\<lparr>invites_cache := (invites_cache st)(g \<mapsto> Map.empty)\<rparr>
      | Failed \<Rightarrow> st)"

text \<open>
  \<^verbatim>\<open>invites_cache.setdefault(g, {}); invites_cache[g][code] = uses or 0\<close>, shared by
  \<^verbatim>\<open>on_invite_create\<close>, \<^verbatim>\<open>create_personal_invite\<close> and \<^verbatim>\<open>create_public_invite\<close>.
\<close>

definition cache_get :: "bot_state \<Rightarrow> int \<Rightarrow> (string \<rightharpoonup> int)" where
  "cache_get st g = (case invites_cache st g of None \<Rightarrow> Map.empty | Some m \<Rightarrow> m)"

definition cache_note_invite :: "int \<Rightarrow> invite \<Rightarrow> bot_state \<Rightarrow> bot_state" where
  "cache_note_invite g iv st =
     st\<lparr>invites_cache := (invites_cache st)(g \<mapsto> (cache_get st g)(inv_code iv \<mapsto> uses_or_0 iv))\<rparr>"

definition create_public_invite :: "int \<Rightarrow> invite \<Rightarrow> bot_state \<Rightarrow> bot_state" where
  "create_public_invite g iv st = cache_note_invite g iv st"

definition create_personal_invite :: "int \<Rightarrow> int \<Rightarrow> invite \<Rightarrow> bot_state \<Rightarrow> bot_state" where
  "create_personal_invite g u iv st =
     cache_note_invite g iv (st\<lparr>ledger := add_or_upsert_invite_owner (ledger st) g u (inv_code iv)\<rparr>)"

text \<open>
  The loop of \<^verbatim>\<open>on_member_join\<close> that determines \<^verbatim>\<open>used_code\<close>:
  \<^verbatim>\<open>for inv in after_invites: prev = before.get(inv.code, 0);
  if (inv.uses or 0) > prev: used_code = inv.code; break\<close>
\<close>

fun resolveJoin :: "(string \<rightharpoonup> int) \<Rightarrow> invite list \<Rightarrow> string option" where
  "resolveJoin before_counts [] = None"
| "resolveJoin before_counts (iv # rest) =
     (let prev = (case before_counts (inv_code iv) of None \<Rightarrow> 0 | Some p \<Rightarrow> p)
      in if uses_or_0 iv > prev then Some (inv_code iv) else resolveJoin before_counts rest)"

text \<open>
  The part of \<^verbatim>\<open>on_member_join\<close> after the ledger update: look the inviter up, total
  the referrals, ask the policy, and call \<^verbatim>\<open>add_roles\<close> when the role and the member
  exist and the role is not held. \<^verbatim>\<open>if inviter_user_id\<close> and \<^verbatim>\<open>if new_role_id\<close> are
  false for 0 as for \<^verbatim>\<open>None\<close>. An exception of \<^verbatim>\<open>add_roles\<close> is caught and logged; one
  of \<^verbatim>\<open>next_award_roles_for\<close> leaves the handler.
\<close>

definition select_inviter :: "database \<Rightarrow> int \<Rightarrow> string \<Rightarrow> int option" where
  "select_inviter d g c =
     map_option user_id (find (\<lambda>r. guild_id r = g \<and> code r = c) (user_invites d))"

definition reward_inviter :: "guild \<Rightarrow> string \<Rightarrow> bot_state \<Rightarrow> py_error option \<times> bot_state" where
  "reward_inviter gd c st =
     (case select_inviter (ledger st) (guild_ident gd) c of
        None \<Rightarrow> (None, st)
      | Some inviter_user_id \<Rightarrow>
          if inviter_user_id = 0 then (None, st)
          else (let total = get_member_total_referrals (ledger st) (guild_ident gd) inviter_user_id
                in case next_award_roles_for (rewards_config st) (guild_ident gd) total of
                     Inl e \<Rightarrow> (Some e, st)
                   | Inr (new_role_id, eligible_roles) \<Rightarrow>
                       (case new_role_id of
                          None \<Rightarrow> (None, st)
                        | Some role \<Rightarrow>
                            if role \<noteq> 0 \<and> role_exists gd role \<and> member_exists gd inviter_user_id
                               \<and> \<not> member_has_role gd inviter_user_id role
                            then (None, st\<lparr>add_roles_calls :=
                                    add_roles_calls st @ [(inviter_user_id, role)]\<rparr>)
                            else (None, st))))"

definition on_member_join ::
  "guild \<Rightarrow> int \<Rightarrow> fetch_result \<Rightarrow> int \<Rightarrow> bot_state \<Rightarrow> py_error option \<times> bot_state" where
  "on_member_join gd member fetched now st =
     (let before_counts = cache_get st (guild_ident gd)
      in case fetched of
           Forbidden \<Rightarrow> (None, st)
         | Failed \<Rightarrow> (None, st)
         | Fetched after_invites \<Rightarrow>
             (let used_code = resolveJoin before_counts after_invites;
                  st1 = st\<lparr>invites_cache :=
                          (invites_cache st)(guild_ident gd \<mapsto> snapshot_of after_invites)\<rparr>
              in case used_code of
                   None \<Rightarrow> (None, st1)
                 | Some c \<Rightarrow>
                     if c = [] then (None, st1)
                     else reward_inviter gd c
                            (st1\<lparr>ledger :=
                                 increment_code_use (ledger st1) (guild_ident gd) c member now\<rparr>)))"

section \<open>Properties of the ledger\<close>

lemma increment_code_use_eq:
  "increment_code_use db g c j now = sql_insert_join_event g j c now (sql_update_uses g c db)"
  by (simp add: increment_code_use_def increment_code_use_interrupted_def
      increment_code_use_steps_def connect_def execute_def commit_def close_def)

lemma upsert_present:
  "list_ex (\<lambda>r. code r = c) (user_invites db) \<Longrightarrow>
   user_invites (add_or_upsert_invite_owner db g u c) =
     map (\<lambda>r. if code r = c then r\<lparr>user_id := u, guild_id := g\<rparr> else r) (user_invites db)"
  by (simp add: add_or_upsert_invite_owner_def Let_def)

lemma find_none: "\<not> list_ex P xs \<Longrightarrow> find P xs = None"
  by (induction xs) auto

lemma upsert_absent:
  "\<not> list_ex (\<lambda>r. code r = c) (user_invites db) \<Longrightarrow>
   user_invites (add_or_upsert_invite_owner db g u c) =
     user_invites db @ [\<lparr>guild_id = g, user_id = u, code = c, uses = 0\<rparr>]"
  by (simp add: add_or_upsert_invite_owner_def Let_def select_uses_where_code_def
      coalesce0_def find_none)

lemma upsert_join_events:
  "join_events (add_or_upsert_invite_owner db g u c) = join_events db"
  by (simp add: add_or_upsert_invite_owner_def Let_def)

lemma upsert_more:
  "database.more (add_or_upsert_invite_owner db g u c) = database.more db"
  by (simp add: add_or_upsert_invite_owner_def Let_def)

lemma repoint_id:
  "\<forall>r\<in>set rows. code r = c \<longrightarrow> user_id r = u \<and> guild_id r = g \<Longrightarrow>
   map (\<lambda>r. if code r = c then r\<lparr>user_id := u, guild_id := g\<rparr> else r) rows = rows"
  by (induction rows) auto

lemma list_ex_code: "list_ex (\<lambda>r. code r = c) rows \<longleftrightarrow> c \<in> code ` set rows"
  by (induction rows) auto

lemma repoint_codes:
  "map code (map (\<lambda>r. if code r = c then r\<lparr>user_id := u, guild_id := g\<rparr> else r) rows) = map code rows"
  by (induction rows) simp_all

lemma repoint_uses:
  "map uses (map (\<lambda>r. if code r = c then r\<lparr>user_id := u, guild_id := g\<rparr> else r) rows) = map uses rows"
  by (induction rows) simp_all

lemma repoint_owner:
  "r \<in> set (map (\<lambda>r. if code r = c then r\<lparr>user_id := u, guild_id := g\<rparr> else r) rows) \<Longrightarrow>
   code r = c \<Longrightarrow> user_id r = u \<and> guild_id r = g"
proof (induction rows)
  case Nil
  then show ?case by simp
next
  case (Cons a rows)
  show ?case
  proof (cases "code a = c")
    case True
    with Cons show ?thesis by (simp, elim disjE) simp_all
  next
    case False
    with Cons show ?thesis by (simp, elim disjE) simp_all
  qed
qed

lemma upsert_ex_after:
  "list_ex (\<lambda>r. code r = c) (user_invites (add_or_upsert_invite_owner db g u c))"
proof (cases "list_ex (\<lambda>r. code r = c) (user_invites db)")
  case True
  have "c \<in> set (map code (user_invites db))" using True by (simp add: list_ex_code)
  then have "c \<in> set (map code (user_invites (add_or_upsert_invite_owner db g u c)))"
    by (simp only: upsert_present[OF True] repoint_codes)
  then show ?thesis by (simp add: list_ex_code)
next
  case False
  then show ?thesis by (simp add: upsert_absent)
qed

lemma upsert_owner_after:
  assumes "r \<in> set (user_invites (add_or_upsert_invite_owner db g u c))" and "code r = c"
  shows "user_id r = u \<and> guild_id r = g"
proof (cases "list_ex (\<lambda>r. code r = c) (user_invites db)")
  case True
  from assms(1) have "r \<in> set (map (\<lambda>r. if code r = c then r\<lparr>user_id := u, guild_id := g\<rparr> else r)
      (user_invites db))"
    by (simp only: upsert_present[OF True])
  then show ?thesis using assms(2) by (rule repoint_owner)
next
  case False
  then have "c \<notin> code ` set (user_invites db)" by (simp add: list_ex_code)
  moreover from assms(1) have "r = \<lparr>guild_id = g, user_id = u, code = c, uses = 0\<rparr> \<or> r \<in> set (user_invites db)"
    by (simp add: upsert_absent[OF False])
  ultimately show ?thesis using assms(2) by (elim disjE) (simp, blast)
qed

lemma upsert_twice:
  "add_or_upsert_invite_owner (add_or_upsert_invite_owner db g u c) g u c =
   add_or_upsert_invite_owner db g u c"
proof -
  define d where "d = add_or_upsert_invite_owner db g u c"
  have ex: "list_ex (\<lambda>r. code r = c) (user_invites d)"
    unfolding d_def by (rule upsert_ex_after)
  have owner: "\<forall>r\<in>set (user_invites d). code r = c \<longrightarrow> user_id r = u \<and> guild_id r = g"
    unfolding d_def using upsert_owner_after by blast
  have rows: "user_invites (add_or_upsert_invite_owner d g u c) = user_invites d"
    by (simp only: upsert_present[OF ex] repoint_id[OF owner])
  have "add_or_upsert_invite_owner d g u c = d"
    by (rule database.equality) (simp_all only: rows upsert_join_events upsert_more)
  then show ?thesis by (simp only: d_def)
qed

lemma repoint_select_uses:
  "select_uses_where_code
     (map (\<lambda>r. if code r = c then r\<lparr>user_id := u, guild_id := g\<rparr> else r) rows) c' =
   select_uses_where_code rows c'"
  by (induction rows) (simp_all add: select_uses_where_code_def)

lemma increment_rows:
  "user_invites (increment_code_use d g c j now) =
     map (\<lambda>r. if guild_id r = g \<and> code r = c then r\<lparr>uses := uses r + 1\<rparr> else r) (user_invites d)"
  by (simp add: increment_code_use_eq sql_update_uses_def sql_insert_join_event_def)

lemma increment_events:
  "join_events (increment_code_use d g c j now) =
     join_events d @ [\<lparr>ev_guild_id = g, joined_user_id = j, inviter_code = c, ts = now\<rparr>]"
  by (simp add: increment_code_use_eq sql_update_uses_def sql_insert_join_event_def)

lemma bump_codes:
  "map code (map (\<lambda>r. if guild_id r = g \<and> code r = c then r\<lparr>uses := uses r + 1\<rparr> else r) rows) =
   map code rows"
  by (induction rows) simp_all

lemma increment_codes:
  "map code (user_invites (increment_code_use d g c j now)) = map code (user_invites d)"
  by (simp only: increment_rows bump_codes)

lemma increment_count:
  "join_events_for (increment_code_use d g c j now) c' =
     join_events_for d c' + (if c' = c then 1 else 0)"
  by (simp add: join_events_for_def increment_events)

lemma upsert_count:
  "join_events_for (add_or_upsert_invite_owner d g u c) c' = join_events_for d c'"
  by (simp add: join_events_for_def upsert_join_events)

lemma upsert_codes:
  "map code (user_invites (add_or_upsert_invite_owner d g u c)) =
     (if list_ex (\<lambda>r. code r = c) (user_invites d) then map code (user_invites d)
      else map code (user_invites d) @ [c])"
proof (cases "list_ex (\<lambda>r. code r = c) (user_invites d)")
  case True
  then show ?thesis by (simp only: upsert_present[OF True] repoint_codes if_True)
next
  case False
  then show ?thesis by (simp add: upsert_absent[OF False])
qed

lemma step_distinct_codes:
  assumes "distinct (map code (user_invites d))"
  shows "distinct (map code (user_invites (ledger_step d x)))"
proof (cases x)
  case (RegisterOwnership g u c)
  show ?thesis
  proof (cases "list_ex (\<lambda>r. code r = c) (user_invites d)")
    case True
    then show ?thesis using assms RegisterOwnership by (simp add: upsert_codes)
  next
    case False
    then have "c \<notin> set (map code (user_invites d))" by (simp add: list_ex_code)
    then show ?thesis using assms RegisterOwnership False by (simp add: upsert_codes)
  qed
next
  case (RecordUse g c j now)
  then show ?thesis using assms by (simp add: increment_codes)
qed

lemma foldl_distinct_codes:
  "distinct (map code (user_invites d)) \<Longrightarrow>
   distinct (map code (user_invites (foldl ledger_step d calls)))"
  by (induction calls arbitrary: d) (simp_all add: step_distinct_codes)

lemma run_ledger_distinct_codes: "distinct (map code (user_invites (run_ledger calls)))"
  unfolding run_ledger_def by (rule foldl_distinct_codes) (simp add: empty_db_def)

lemma run_ledger_distinct_rows: "distinct (user_invites (run_ledger calls))"
  using run_ledger_distinct_codes distinct_map by blast

lemma total_is_sum_list:
  "get_member_total_referrals d g u =
     sum_list (map uses (filter (\<lambda>r. guild_id r = g \<and> user_id r = u) (user_invites d)))"
  by (simp add: get_member_total_referrals_def sql_sum_uses_def coalesce0_def Let_def)

lemma ledger_eval:
  "run_ledger [RegisterOwnership 1 5 ''X'', RegisterOwnership 1 5 ''Y'', RecordUse 1 ''X'' 7 10,
               RecordUse 1 ''Y'' 8 11, RecordUse 1 ''X'' 9 12] =
   \<lparr>user_invites = [\<lparr>guild_id = 1, user_id = 5, code = ''X'', uses = 2\<rparr>,
                    \<lparr>guild_id = 1, user_id = 5, code = ''Y'', uses = 1\<rparr>],
    join_events = [\<lparr>ev_guild_id = 1, joined_user_id = 7, inviter_code = ''X'', ts = 10\<rparr>,
                   \<lparr>ev_guild_id = 1, joined_user_id = 8, inviter_code = ''Y'', ts = 11\<rparr>,
                   \<lparr>ev_guild_id = 1, joined_user_id = 9, inviter_code = ''X'', ts = 12\<rparr>]\<rparr>"
  by (simp add: run_ledger_def empty_db_def increment_code_use_eq sql_update_uses_def
      sql_insert_join_event_def add_or_upsert_invite_owner_def Let_def
      select_uses_where_code_def coalesce0_def)

lemma step_uses_le:
  assumes "\<forall>r\<in>set (user_invites d). uses r \<le> int (join_events_for d (code r))"
  shows "\<forall>r\<in>set (user_invites (ledger_step d x)).
           uses r \<le> int (join_events_for (ledger_step d x) (code r))"
proof (cases x)
  case (RegisterOwnership g u c)
  show ?thesis
  proof (cases "list_ex (\<lambda>r. code r = c) (user_invites d)")
    case True
    show ?thesis
    proof
      fix r assume "r \<in> set (user_invites (ledger_step d x))"
      then obtain r0 where r0: "r0 \<in> set (user_invites d)"
        and r: "r = (if code r0 = c then r0\<lparr>user_id := u, guild_id := g\<rparr> else r0)"
        unfolding RegisterOwnership ledger_step.simps upsert_present[OF True] by auto
      have "uses r = uses r0" "code r = code r0" using r by simp_all
      then show "uses r \<le> int (join_events_for (ledger_step d x) (code r))"
        using assms r0 by (simp add: RegisterOwnership upsert_count)
    qed
  next
    case False
    show ?thesis
    proof
      fix r assume "r \<in> set (user_invites (ledger_step d x))"
      then have "r = \<lparr>guild_id = g, user_id = u, code = c, uses = 0\<rparr> \<or> r \<in> set (user_invites d)"
        unfolding RegisterOwnership ledger_step.simps upsert_absent[OF False] by simp
      then show "uses r \<le> int (join_events_for (ledger_step d x) (code r))"
      proof
        assume "r = \<lparr>guild_id = g, user_id = u, code = c, uses = 0\<rparr>"
        then show ?thesis by simp
      next
        assume "r \<in> set (user_invites d)"
        then show ?thesis using assms by (simp add: RegisterOwnership upsert_count)
      qed
    qed
  qed
next
  case (RecordUse g c j now)
  show ?thesis
  proof
    fix r assume "r \<in> set (user_invites (ledger_step d x))"
    then obtain r0 where r0: "r0 \<in> set (user_invites d)"
      and r: "r = (if guild_id r0 = g \<and> code r0 = c then r0\<lparr>uses := uses r0 + 1\<rparr> else r0)"
      unfolding RecordUse ledger_step.simps increment_rows by auto
    have le0: "uses r0 \<le> int (join_events_for d (code r0))" using assms r0 by blast
    show "uses r \<le> int (join_events_for (ledger_step d x) (code r))"
    proof (cases "guild_id r0 = g \<and> code r0 = c")
      case True
      then have "uses r = uses r0 + 1" "code r = c" "code r0 = c" using r by simp_all
      then show ?thesis using le0 by (simp add: RecordUse increment_count)
    next
      case False
      then have "r = r0" using r by simp
      then show ?thesis using le0 by (simp add: RecordUse increment_count)
    qed
  qed
qed

lemma foldl_uses_le:
  "\<forall>r\<in>set (user_invites d). uses r \<le> int (join_events_for d (code r)) \<Longrightarrow>
   \<forall>r\<in>set (user_invites (foldl ledger_step d calls)).
      uses r \<le> int (join_events_for (foldl ledger_step d calls) (code r))"
proof (induction calls arbitrary: d)
  case Nil
  then show ?case by simp
next
  case (Cons x calls)
  from step_uses_le[OF Cons.prems] have
    "\<forall>r\<in>set (user_invites (ledger_step d x)). uses r \<le> int (join_events_for (ledger_step d x) (code r))" .
  from Cons.IH[OF this] show ?case by simp
qed

lemma step_uses_eq:
  assumes dist: "distinct (map code (user_invites d))"
    and eq: "\<forall>r\<in>set (user_invites d). uses r = int (join_events_for d (code r))"
    and cov: "\<forall>e\<in>set (join_events d). inviter_code e \<in> code ` set (user_invites d)"
    and tgt: "targets_registered d [x]"
  shows "(\<forall>r\<in>set (user_invites (ledger_step d x)).
            uses r = int (join_events_for (ledger_step d x) (code r)))
       \<and> (\<forall>e\<in>set (join_events (ledger_step d x)).
            inviter_code e \<in> code ` set (user_invites (ledger_step d x)))"
proof (cases x)
  case (RegisterOwnership g u c)
  have codes: "set (map code (user_invites d)) \<subseteq> set (map code (user_invites (ledger_step d x)))"
    unfolding RegisterOwnership ledger_step.simps upsert_codes by auto
  have cov': "\<forall>e\<in>set (join_events (ledger_step d x)).
            inviter_code e \<in> code ` set (user_invites (ledger_step d x))"
    using cov codes by (auto simp: RegisterOwnership upsert_join_events)
  have eq': "\<forall>r\<in>set (user_invites (ledger_step d x)).
            uses r = int (join_events_for (ledger_step d x) (code r))"
  proof (cases "list_ex (\<lambda>r. code r = c) (user_invites d)")
    case True
    show ?thesis
    proof
      fix r assume "r \<in> set (user_invites (ledger_step d x))"
      then obtain r0 where r0: "r0 \<in> set (user_invites d)"
        and r: "r = (if code r0 = c then r0\<lparr>user_id := u, guild_id := g\<rparr> else r0)"
        unfolding RegisterOwnership ledger_step.simps upsert_present[OF True] by auto
      have "uses r = uses r0" "code r = code r0" using r by simp_all
      then show "uses r = int (join_events_for (ledger_step d x) (code r))"
        using eq r0 by (simp add: RegisterOwnership upsert_count)
    qed
  next
    case False
    then have "c \<notin> code ` set (user_invites d)" by (simp add: list_ex_code)
    with cov have "\<forall>e\<in>set (join_events d). inviter_code e \<noteq> c" by blast
    then have none: "join_events_for d c = 0"
      by (simp add: join_events_for_def filter_empty_conv)
    show ?thesis
    proof
      fix r assume "r \<in> set (user_invites (ledger_step d x))"
      then have "r = \<lparr>guild_id = g, user_id = u, code = c, uses = 0\<rparr> \<or> r \<in> set (user_invites d)"
        unfolding RegisterOwnership ledger_step.simps upsert_absent[OF False] by simp
      then show "uses r = int (join_events_for (ledger_step d x) (code r))"
      proof
        assume "r = \<lparr>guild_id = g, user_id = u, code = c, uses = 0\<rparr>"
        then show ?thesis using none by (simp add: RegisterOwnership upsert_count)
      next
        assume "r \<in> set (user_invites d)"
        then show ?thesis using eq by (simp add: RegisterOwnership upsert_count)
      qed
    qed
  qed
  from eq' cov' show ?thesis by (rule conjI)
next
  case (RecordUse g c j now)
  from tgt obtain r1 where r1: "r1 \<in> set (user_invites d)" "guild_id r1 = g" "code r1 = c"
    by (auto simp: RecordUse list_ex_iff)
  have inj: "inj_on code (set (user_invites d))"
    using dist by (simp add: distinct_map)
  have codes: "code ` set (user_invites (ledger_step d x)) = code ` set (user_invites d)"
    using increment_codes[of d g c j now] unfolding RecordUse ledger_step.simps
    by (metis set_map)
  have cov': "\<forall>e\<in>set (join_events (ledger_step d x)).
            inviter_code e \<in> code ` set (user_invites (ledger_step d x))"
    unfolding codes using cov r1 by (auto simp: RecordUse increment_events)
  have eq': "\<forall>r\<in>set (user_invites (ledger_step d x)).
            uses r = int (join_events_for (ledger_step d x) (code r))"
  proof
    fix r assume "r \<in> set (user_invites (ledger_step d x))"
    then obtain r0 where r0: "r0 \<in> set (user_invites d)"
      and r: "r = (if guild_id r0 = g \<and> code r0 = c then r0\<lparr>uses := uses r0 + 1\<rparr> else r0)"
      unfolding RecordUse ledger_step.simps increment_rows by auto
    have eq0: "uses r0 = int (join_events_for d (code r0))" using eq r0 by blast
    show "uses r = int (join_events_for (ledger_step d x) (code r))"
    proof (cases "code r0 = c")
      case True
      with r0 r1 inj have "r0 = r1" by (simp add: inj_on_def)
      then have "guild_id r0 = g" using r1 by simp
      then have "uses r = uses r0 + 1" "code r = c" using r True by simp_all
      then show ?thesis using eq0 True by (simp add: RecordUse increment_count)
    next
      case False
      then have "r = r0" using r by simp
      then show ?thesis using eq0 False by (simp add: RecordUse increment_count)
    qed
  qed
  from eq' cov' show ?thesis by (rule conjI)
qed

lemma targets_registered_Cons:
  "targets_registered d (x # rest) \<longleftrightarrow>
     targets_registered d [x] \<and> targets_registered (ledger_step d x) rest"
  by (cases x) simp_all

lemma foldl_uses_eq:
  "distinct (map code (user_invites d)) \<Longrightarrow>
   \<forall>r\<in>set (user_invites d). uses r = int (join_events_for d (code r)) \<Longrightarrow>
   \<forall>e\<in>set (join_events d). inviter_code e \<in> code ` set (user_invites d) \<Longrightarrow>
   targets_registered d calls \<Longrightarrow>
   \<forall>r\<in>set (user_invites (foldl ledger_step d calls)).
      uses r = int (join_events_for (foldl ledger_step d calls) (code r))"
proof (induction calls arbitrary: d)
  case Nil
  then show ?case by simp
next
  case (Cons x calls)
  from Cons.prems(4) have t1: "targets_registered d [x]"
    and t2: "targets_registered (ledger_step d x) calls"
    by (simp_all only: targets_registered_Cons[of d x calls])
  from step_uses_eq[OF Cons.prems(1,2,3) t1] step_distinct_codes[OF Cons.prems(1), of x]
  show ?case using Cons.IH[of "ledger_step d x"] t2 by simp
qed

section \<open>Claims about the ledger\<close>

text \<open>
  Claim C4. \<^verbatim>\<open>add_or_upsert_invite_owner\<close> is an idempotent upsert. When the code has a
  row already, the call leaves every stored use count and every code as it was, the use
  count found for the code is the one found before, and each row of the code is owned by
  the given user in the given guild. A second call with the same arguments changes
  nothing, and the join events are never touched.
\<close>

theorem registerOwnership_preserves_uses:
  "(list_ex (\<lambda>r. code r = c) (user_invites db) \<longrightarrow>
      map uses (user_invites (add_or_upsert_invite_owner db g u c)) = map uses (user_invites db)
    \<and> map code (user_invites (add_or_upsert_invite_owner db g u c)) = map code (user_invites db)
    \<and> select_uses_where_code (user_invites (add_or_upsert_invite_owner db g u c)) c =
        select_uses_where_code (user_invites db) c
    \<and> (\<forall>r\<in>set (user_invites (add_or_upsert_invite_owner db g u c)).
          code r = c \<longrightarrow> user_id r = u \<and> guild_id r = g))
   \<and> add_or_upsert_invite_owner (add_or_upsert_invite_owner db g u c) g u c =
       add_or_upsert_invite_owner db g u c
   \<and> join_events (add_or_upsert_invite_owner db g u c) = join_events db"
proof (intro conjI impI)
  assume ex: "list_ex (\<lambda>r. code r = c) (user_invites db)"
  show "map uses (user_invites (add_or_upsert_invite_owner db g u c)) = map uses (user_invites db)"
    by (simp only: upsert_present[OF ex] repoint_uses)
  show "map code (user_invites (add_or_upsert_invite_owner db g u c)) = map code (user_invites db)"
    by (simp only: upsert_present[OF ex] repoint_codes)
  show "select_uses_where_code (user_invites (add_or_upsert_invite_owner db g u c)) c =
        select_uses_where_code (user_invites db) c"
    by (simp only: upsert_present[OF ex] repoint_select_uses)
  show "\<forall>r\<in>set (user_invites (add_or_upsert_invite_owner db g u c)).
          code r = c \<longrightarrow> user_id r = u \<and> guild_id r = g"
    using upsert_owner_after by blast
next
  show "add_or_upsert_invite_owner (add_or_upsert_invite_owner db g u c) g u c =
       add_or_upsert_invite_owner db g u c"
    by (rule upsert_twice)
  show "join_events (add_or_upsert_invite_owner db g u c) = join_events db"
    by (rule upsert_join_events)
qed

theorem registerOwnership_preserves_uses_witness:
  "list_ex (\<lambda>r. code r = ''X'')
     (user_invites \<lparr>user_invites = [\<lparr>guild_id = 1, user_id = 5, code = ''X'', uses = 1\<rparr>],
                    join_events = []\<rparr>)
   \<and> map uses (user_invites (add_or_upsert_invite_owner
        \<lparr>user_invites = [\<lparr>guild_id = 1, user_id = 5, code = ''X'', uses = 1\<rparr>],
         join_events = []\<rparr> 2 6 ''X'')) = [1]
   \<and> user_invites (add_or_upsert_invite_owner
        \<lparr>user_invites = [\<lparr>guild_id = 1, user_id = 5, code = ''X'', uses = 1\<rparr>],
         join_events = []\<rparr> 2 6 ''X'') = [\<lparr>guild_id = 2, user_id = 6, code = ''X'', uses = 1\<rparr>]"
  using registerOwnership_preserves_uses
    [of "''X''" "\<lparr>user_invites = [\<lparr>guild_id = 1, user_id = 5, code = ''X'', uses = 1\<rparr>],
                    join_events = []\<rparr>" 2 6]
  by (simp add: add_or_upsert_invite_owner_def Let_def)

text \<open>
  Claim C3. \<^verbatim>\<open>increment_code_use\<close> is atomic. Wherever the body stops, the database
  holds either what it held before the call or the result of the complete call; stopping
  before the commit, in particular between the UPDATE and the INSERT, leaves what it
  held before. The complete call bumps the matching rows and appends the join event.
\<close>

theorem increment_code_use_atomic:
  "(increment_code_use_interrupted k db g c j now = db
      \<or> increment_code_use_interrupted k db g c j now = increment_code_use db g c j now)
   \<and> (k < 3 \<longrightarrow> increment_code_use_interrupted k db g c j now = db)
   \<and> increment_code_use_interrupted 1 db g c j now = db
   \<and> increment_code_use db g c j now =
       db\<lparr>user_invites :=
            map (\<lambda>r. if guild_id r = g \<and> code r = c then r\<lparr>uses := uses r + 1\<rparr> else r)
              (user_invites db),
          join_events := join_events db @
            [\<lparr>ev_guild_id = g, joined_user_id = j, inviter_code = c, ts = now\<rparr>]\<rparr>"
proof -
  have small: "increment_code_use_interrupted n db g c j now = db" if "n < 3" for n
  proof -
    from that consider "n = 0" | "n = 1" | "n = 2" by linarith
    then show ?thesis
      by cases (simp_all add: increment_code_use_interrupted_def increment_code_use_steps_def
          connect_def execute_def close_def)
  qed
  have big: "increment_code_use_interrupted k db g c j now = increment_code_use db g c j now"
    if "\<not> k < 3"
    using that
    by (simp add: increment_code_use_def increment_code_use_interrupted_def
        increment_code_use_steps_def)
  have full: "increment_code_use db g c j now =
       db\<lparr>user_invites :=
            map (\<lambda>r. if guild_id r = g \<and> code r = c then r\<lparr>uses := uses r + 1\<rparr> else r)
              (user_invites db),
          join_events := join_events db @
            [\<lparr>ev_guild_id = g, joined_user_id = j, inviter_code = c, ts = now\<rparr>]\<rparr>"
    by (simp add: increment_code_use_eq sql_update_uses_def sql_insert_join_event_def)
  show ?thesis using small[of k] small[of 1] big full by (cases "k < 3") simp_all
qed

theorem increment_code_use_atomic_witness:
  "(1::nat) < 3
   \<and> increment_code_use_interrupted 1
        \<lparr>user_invites = [\<lparr>guild_id = 1, user_id = 5, code = ''X'', uses = 4\<rparr>],
         join_events = []\<rparr> 1 ''X'' 7 100 =
       \<lparr>user_invites = [\<lparr>guild_id = 1, user_id = 5, code = ''X'', uses = 4\<rparr>],
        join_events = []\<rparr>
   \<and> increment_code_use
        \<lparr>user_invites = [\<lparr>guild_id = 1, user_id = 5, code = ''X'', uses = 4\<rparr>],
         join_events = []\<rparr> 1 ''X'' 7 100 =
       \<lparr>user_invites = [\<lparr>guild_id = 1, user_id = 5, code = ''X'', uses = 5\<rparr>],
        join_events = [\<lparr>ev_guild_id = 1, joined_user_id = 7, inviter_code = ''X'', ts = 100\<rparr>]\<rparr>"
  using increment_code_use_atomic
    [of 1 "\<lparr>user_invites = [\<lparr>guild_id = 1, user_id = 5, code = ''X'', uses = 4\<rparr>],
            join_events = []\<rparr>" 1 "''X''" 7 100]
  by simp

text \<open>
  Claim C7. \<^verbatim>\<open>get_member_total_referrals\<close> returns the sum of the stored use counts
  over the rows of the given guild and user, and 0 when there is no such row. After any
  sequence of \<open>RegisterOwnership\<close> and \<open>RecordUse\<close> calls the rows are pairwise
  different, so the sum runs over the set of invites the user owns in the guild.
\<close>

theorem totalReferrals_is_sum:
  "get_member_total_referrals db g u =
     sum_list (map uses (filter (\<lambda>r. guild_id r = g \<and> user_id r = u) (user_invites db)))
   \<and> ((\<forall>r\<in>set (user_invites db). \<not> (guild_id r = g \<and> user_id r = u)) \<longrightarrow>
        get_member_total_referrals db g u = 0)
   \<and> get_member_total_referrals (run_ledger calls) g u =
       (\<Sum>r\<in>{r \<in> set (user_invites (run_ledger calls)). guild_id r = g \<and> user_id r = u}. uses r)"
proof (intro conjI impI)
  show "get_member_total_referrals db g u =
     sum_list (map uses (filter (\<lambda>r. guild_id r = g \<and> user_id r = u) (user_invites db)))"
    by (rule total_is_sum_list)
next
  assume none: "\<forall>r\<in>set (user_invites db). \<not> (guild_id r = g \<and> user_id r = u)"
  then have "filter (\<lambda>r. guild_id r = g \<and> user_id r = u) (user_invites db) = []"
    by (simp add: filter_empty_conv)
  then show "get_member_total_referrals db g u = 0"
    by (simp add: total_is_sum_list)
next
  let ?rows = "filter (\<lambda>r. guild_id r = g \<and> user_id r = u) (user_invites (run_ledger calls))"
  have "distinct ?rows" using run_ledger_distinct_rows by (rule distinct_filter)
  then have "sum_list (map uses ?rows) = sum uses (set ?rows)"
    by (rule sum_list_distinct_conv_sum_set)
  moreover have "set ?rows =
      {r \<in> set (user_invites (run_ledger calls)). guild_id r = g \<and> user_id r = u}"
    by simp
  ultimately show "get_member_total_referrals (run_ledger calls) g u =
       (\<Sum>r\<in>{r \<in> set (user_invites (run_ledger calls)). guild_id r = g \<and> user_id r = u}. uses r)"
    by (simp only: total_is_sum_list)
qed

theorem totalReferrals_is_sum_witness:
  "filter (\<lambda>r. guild_id r = 1 \<and> user_id r = 6) (user_invites (run_ledger
        [RegisterOwnership 1 5 ''X'', RegisterOwnership 1 5 ''Y'', RecordUse 1 ''X'' 7 10,
         RecordUse 1 ''Y'' 8 11, RecordUse 1 ''X'' 9 12])) = []
   \<and> get_member_total_referrals (run_ledger
        [RegisterOwnership 1 5 ''X'', RegisterOwnership 1 5 ''Y'', RecordUse 1 ''X'' 7 10,
         RecordUse 1 ''Y'' 8 11, RecordUse 1 ''X'' 9 12]) 1 6 = 0
   \<and> get_member_total_referrals (run_ledger
        [RegisterOwnership 1 5 ''X'', RegisterOwnership 1 5 ''Y'', RecordUse 1 ''X'' 7 10,
         RecordUse 1 ''Y'' 8 11, RecordUse 1 ''X'' 9 12]) 1 5 = 3"
  using totalReferrals_is_sum
    [of "run_ledger [RegisterOwnership 1 5 ''X'', RegisterOwnership 1 5 ''Y'',
           RecordUse 1 ''X'' 7 10, RecordUse 1 ''Y'' 8 11, RecordUse 1 ''X'' 9 12]" 1 6]
    totalReferrals_is_sum
    [of "run_ledger [RegisterOwnership 1 5 ''X'', RegisterOwnership 1 5 ''Y'',
           RecordUse 1 ''X'' 7 10, RecordUse 1 ''Y'' 8 11, RecordUse 1 ''X'' 9 12]" 1 5]
  by (simp add: ledger_eval)

text \<open>
  Claim C5, as the code has it. After any sequence of \<open>RegisterOwnership\<close> and
  \<open>RecordUse\<close> calls from the empty database, the use count of every invite is at most
  the number of join events carrying its code; the two are equal when every
  \<open>RecordUse\<close> named a code registered in the given guild at the time of the call.
\<close>

theorem use_count_vs_join_events:
  "(\<forall>r\<in>set (user_invites (run_ledger calls)).
      uses r \<le> int (join_events_for (run_ledger calls) (code r)))
   \<and> (targets_registered empty_db calls \<longrightarrow>
       (\<forall>r\<in>set (user_invites (run_ledger calls)).
          uses r = int (join_events_for (run_ledger calls) (code r))))"
proof (intro conjI impI)
  show "\<forall>r\<in>set (user_invites (run_ledger calls)).
      uses r \<le> int (join_events_for (run_ledger calls) (code r))"
    unfolding run_ledger_def by (rule foldl_uses_le) (simp add: empty_db_def)
next
  assume "targets_registered empty_db calls"
  then show "\<forall>r\<in>set (user_invites (run_ledger calls)).
          uses r = int (join_events_for (run_ledger calls) (code r))"
    unfolding run_ledger_def by (intro foldl_uses_eq) (simp_all add: empty_db_def)
qed

theorem use_count_vs_join_events_witness:
  "targets_registered empty_db
     [RegisterOwnership 1 5 ''X'', RegisterOwnership 1 5 ''Y'', RecordUse 1 ''X'' 7 10,
      RecordUse 1 ''Y'' 8 11, RecordUse 1 ''X'' 9 12]
   \<and> map uses (user_invites (run_ledger
        [RegisterOwnership 1 5 ''X'', RegisterOwnership 1 5 ''Y'', RecordUse 1 ''X'' 7 10,
         RecordUse 1 ''Y'' 8 11, RecordUse 1 ''X'' 9 12])) = [2, 1]
   \<and> join_events_for (run_ledger
        [RegisterOwnership 1 5 ''X'', RegisterOwnership 1 5 ''Y'', RecordUse 1 ''X'' 7 10,
         RecordUse 1 ''Y'' 8 11, RecordUse 1 ''X'' 9 12]) ''X'' = 2
   \<and> join_events_for (run_ledger
        [RegisterOwnership 1 5 ''X'', RegisterOwnership 1 5 ''Y'', RecordUse 1 ''X'' 7 10,
         RecordUse 1 ''Y'' 8 11, RecordUse 1 ''X'' 9 12]) ''Y'' = 1"
proof -
  have t: "targets_registered empty_db
     [RegisterOwnership 1 5 ''X'', RegisterOwnership 1 5 ''Y'', RecordUse 1 ''X'' 7 10,
      RecordUse 1 ''Y'' 8 11, RecordUse 1 ''X'' 9 12]"
    by (simp add: empty_db_def increment_code_use_eq sql_update_uses_def
      sql_insert_join_event_def add_or_upsert_invite_owner_def Let_def
      select_uses_where_code_def coalesce0_def)
  show ?thesis
    using t use_count_vs_join_events
      [of "[RegisterOwnership 1 5 ''X'', RegisterOwnership 1 5 ''Y'', RecordUse 1 ''X'' 7 10,
            RecordUse 1 ''Y'' 8 11, RecordUse 1 ''X'' 9 12]"]
    by (simp add: ledger_eval join_events_for_def)
qed

text \<open>
  The use count can be below the number of join events: a use recorded for a code that
  has no row appends the event and bumps nothing, and registering the code afterwards
  starts it at 0.
\<close>

theorem use_count_below_join_events_counterexample:
  "run_ledger [RecordUse 1 ''X'' 7 10, RegisterOwnership 1 5 ''X''] =
     \<lparr>user_invites = [\<lparr>guild_id = 1, user_id = 5, code = ''X'', uses = 0\<rparr>],
      join_events = [\<lparr>ev_guild_id = 1, joined_user_id = 7, inviter_code = ''X'', ts = 10\<rparr>]\<rparr>
   \<and> join_events_for (run_ledger [RecordUse 1 ''X'' 7 10, RegisterOwnership 1 5 ''X'']) ''X'' = 1
   \<and> \<not> uses (hd (user_invites (run_ledger [RecordUse 1 ''X'' 7 10, RegisterOwnership 1 5 ''X''])))
        \<ge> int (join_events_for (run_ledger [RecordUse 1 ''X'' 7 10, RegisterOwnership 1 5 ''X''])
             (code (hd (user_invites (run_ledger [RecordUse 1 ''X'' 7 10, RegisterOwnership 1 5 ''X''])))))"
proof -
  have e: "run_ledger [RecordUse 1 ''X'' 7 10, RegisterOwnership 1 5 ''X''] =
     \<lparr>user_invites = [\<lparr>guild_id = 1, user_id = 5, code = ''X'', uses = 0\<rparr>],
      join_events = [\<lparr>ev_guild_id = 1, joined_user_id = 7, inviter_code = ''X'', ts = 10\<rparr>]\<rparr>"
    by (simp add: run_ledger_def empty_db_def increment_code_use_eq sql_update_uses_def
      sql_insert_join_event_def add_or_upsert_invite_owner_def Let_def
      select_uses_where_code_def coalesce0_def)
  show ?thesis by (simp add: e join_events_for_def)
qed

section \<open>Properties of the join handler\<close>

lemma resolveJoin_find:
  "resolveJoin b invs =
     map_option inv_code
       (find (\<lambda>iv. (case b (inv_code iv) of None \<Rightarrow> 0 | Some p \<Rightarrow> p) < uses_or_0 iv) invs)"
  by (induction invs) (simp_all add: Let_def)

lemma on_member_join_unresolved:
  "resolveJoin (cache_get st (guild_ident gd)) invs = None \<Longrightarrow>
   on_member_join gd m (Fetched invs) now st =
     (None, st\<lparr>invites_cache := (invites_cache st)(guild_ident gd \<mapsto> snapshot_of invs)\<rparr>)"
  by (simp add: on_member_join_def Let_def)

lemma on_member_join_resolved:
  "resolveJoin (cache_get st (guild_ident gd)) invs = Some c \<Longrightarrow> c \<noteq> [] \<Longrightarrow>
   on_member_join gd m (Fetched invs) now st =
     reward_inviter gd c
       (st\<lparr>invites_cache := (invites_cache st)(guild_ident gd \<mapsto> snapshot_of invs),
           ledger := increment_code_use (ledger st) (guild_ident gd) c m now\<rparr>)"
  by (simp add: on_member_join_def Let_def)

lemma reward_inviter_ledger: "ledger (snd (reward_inviter gd c st)) = ledger st"
  by (simp add: reward_inviter_def Let_def split: option.split sum.split prod.split)

lemma reward_inviter_cache: "invites_cache (snd (reward_inviter gd c st)) = invites_cache st"
  by (simp add: reward_inviter_def Let_def split: option.split sum.split prod.split)

lemma reward_inviter_no_row:
  "select_inviter (ledger st) (guild_ident gd) c = None \<Longrightarrow> reward_inviter gd c st = (None, st)"
  by (simp add: reward_inviter_def)

lemma bump_none:
  "\<not> list_ex (\<lambda>r. code r = c) rows \<Longrightarrow>
   map (\<lambda>r. if guild_id r = g \<and> code r = c then r\<lparr>uses := uses r + 1\<rparr> else r) rows = rows"
  by (induction rows) simp_all

lemma select_inviter_none:
  "\<not> list_ex (\<lambda>r. code r = c) (user_invites d) \<Longrightarrow> select_inviter d g c = None"
proof -
  assume "\<not> list_ex (\<lambda>r. code r = c) (user_invites d)"
  then have "\<not> list_ex (\<lambda>r. guild_id r = g \<and> code r = c) (user_invites d)"
    by (simp add: list_ex_iff)
  then show ?thesis by (simp add: select_inviter_def find_none)
qed

lemma increment_unregistered:
  assumes "\<not> list_ex (\<lambda>r. code r = c) (user_invites d)"
  shows "increment_code_use d g c j now =
     d\<lparr>join_events := join_events d @
         [\<lparr>ev_guild_id = g, joined_user_id = j, inviter_code = c, ts = now\<rparr>]\<rparr>"
  by (simp add: increment_code_use_eq sql_update_uses_def sql_insert_join_event_def
      bump_none[OF assms])

lemma cache_get_degraded: "cache_get (refresh_guild_invites g Forbidden st) g = Map.empty"
  by (simp add: cache_get_def refresh_guild_invites_def)

lemma refresh_ledger: "ledger (refresh_guild_invites g f st) = ledger st"
  by (cases f) (simp_all add: refresh_guild_invites_def)

lemma on_member_join_cache:
  "invites_cache (snd (on_member_join gd m (Fetched invs) now st)) (guild_ident gd) =
     Some (snapshot_of invs)"
proof (cases "resolveJoin (cache_get st (guild_ident gd)) invs")
  case None
  then show ?thesis by (simp add: on_member_join_unresolved[OF None])
next
  case (Some c)
  show ?thesis
  proof (cases "c = []")
    case True
    then show ?thesis using Some by (simp add: on_member_join_def Let_def)
  next
    case False
    show ?thesis
      by (simp add: on_member_join_resolved[OF Some False] reward_inviter_cache)
  qed
qed

lemma resolveJoin_empty:
  "resolveJoin Map.empty invs = map_option inv_code (find (\<lambda>iv. 0 < uses_or_0 iv) invs)"
  by (simp add: resolveJoin_find)

section \<open>Claims about the join handler\<close>

text \<open>
  Claim C1. The loop of \<^verbatim>\<open>on_member_join\<close> yields the code of the first invite, in the
  order of the fetched list, whose use count (\<^verbatim>\<open>None\<close> read as 0) is strictly above
  the count the snapshot holds for its code (a missing code read as 0), and yields
  nothing exactly when no listed invite is above its snapshot count. For the snapshot
  A:5, B:2 and the list A:5, B:3 it yields B.
\<close>

theorem resolveJoin_first_increase:
  "(resolveJoin b invs = Some c \<longleftrightarrow>
      (\<exists>i<length invs.
          inv_code (invs ! i) = c
        \<and> (case b (inv_code (invs ! i)) of None \<Rightarrow> 0 | Some p \<Rightarrow> p) < uses_or_0 (invs ! i)
        \<and> (\<forall>j<i. \<not> (case b (inv_code (invs ! j)) of None \<Rightarrow> 0 | Some p \<Rightarrow> p)
                      < uses_or_0 (invs ! j))))
   \<and> (resolveJoin b invs = None \<longleftrightarrow>
      (\<forall>iv\<in>set invs. \<not> (case b (inv_code iv) of None \<Rightarrow> 0 | Some p \<Rightarrow> p) < uses_or_0 iv))
   \<and> resolveJoin [''A'' \<mapsto> 5, ''B'' \<mapsto> 2]
        [\<lparr>inv_code = ''A'', inv_uses = Some 5\<rparr>, \<lparr>inv_code = ''B'', inv_uses = Some 3\<rparr>] = Some ''B''"
proof (intro conjI)
  show "resolveJoin b invs = Some c \<longleftrightarrow>
      (\<exists>i<length invs.
          inv_code (invs ! i) = c
        \<and> (case b (inv_code (invs ! i)) of None \<Rightarrow> 0 | Some p \<Rightarrow> p) < uses_or_0 (invs ! i)
        \<and> (\<forall>j<i. \<not> (case b (inv_code (invs ! j)) of None \<Rightarrow> 0 | Some p \<Rightarrow> p)
                      < uses_or_0 (invs ! j)))"
    unfolding resolveJoin_find map_option_eq_Some find_Some_iff by blast
  show "resolveJoin b invs = None \<longleftrightarrow>
      (\<forall>iv\<in>set invs. \<not> (case b (inv_code iv) of None \<Rightarrow> 0 | Some p \<Rightarrow> p) < uses_or_0 iv)"
    unfolding resolveJoin_find by (simp add: find_None_iff Ball_def)
  show "resolveJoin [''A'' \<mapsto> 5, ''B'' \<mapsto> 2]
        [\<lparr>inv_code = ''A'', inv_uses = Some 5\<rparr>, \<lparr>inv_code = ''B'', inv_uses = Some 3\<rparr>] = Some ''B''"
    by (simp add: uses_or_0_def)
qed

theorem resolveJoin_first_increase_witness:
  "resolveJoin [''A'' \<mapsto> 5, ''B'' \<mapsto> 2]
     [\<lparr>inv_code = ''A'', inv_uses = Some 6\<rparr>, \<lparr>inv_code = ''B'', inv_uses = Some 3\<rparr>,
      \<lparr>inv_code = ''C'', inv_uses = None\<rparr>] = Some ''A''
   \<and> resolveJoin [''A'' \<mapsto> 5, ''B'' \<mapsto> 2]
     [\<lparr>inv_code = ''A'', inv_uses = Some 5\<rparr>, \<lparr>inv_code = ''C'', inv_uses = Some 1\<rparr>,
      \<lparr>inv_code = ''B'', inv_uses = Some 3\<rparr>] = Some ''C''
   \<and> resolveJoin [''A'' \<mapsto> 5, ''B'' \<mapsto> 2]
     [\<lparr>inv_code = ''A'', inv_uses = Some 5\<rparr>, \<lparr>inv_code = ''B'', inv_uses = Some 2\<rparr>] = None"
  using resolveJoin_first_increase
    [of "[''A'' \<mapsto> 5, ''B'' \<mapsto> 2]"
        "[\<lparr>inv_code = ''A'', inv_uses = Some 5\<rparr>, \<lparr>inv_code = ''B'', inv_uses = Some 2\<rparr>]" "''A''"]
  by (simp add: uses_or_0_def)

text \<open>
  Claim C2. When no fetched invite is above its snapshot count, the loop yields nothing
  and the handler returns without raising, with the ledger (use counts and join
  events) and the role grants as they were; the snapshot of the guild is replaced by the
  fetched list all the same.
\<close>

theorem no_increase_no_attribution:
  assumes "\<forall>iv\<in>set invs.
      \<not> (case cache_get st (guild_ident gd) (inv_code iv) of None \<Rightarrow> 0 | Some p \<Rightarrow> p) < uses_or_0 iv"
  shows "resolveJoin (cache_get st (guild_ident gd)) invs = None
    \<and> fst (on_member_join gd m (Fetched invs) now st) = None
    \<and> ledger (snd (on_member_join gd m (Fetched invs) now st)) = ledger st
    \<and> add_roles_calls (snd (on_member_join gd m (Fetched invs) now st)) = add_roles_calls st
    \<and> invites_cache (snd (on_member_join gd m (Fetched invs) now st)) (guild_ident gd) =
        Some (snapshot_of invs)"
proof -
  from assms have none: "resolveJoin (cache_get st (guild_ident gd)) invs = None"
    unfolding resolveJoin_find by (simp add: find_None_iff Ball_def)
  show ?thesis using none by (simp add: on_member_join_unresolved[OF none])
qed

theorem no_increase_no_attribution_witness:
  "resolveJoin
     (cache_get \<lparr>invites_cache = [1 \<mapsto> [''A'' \<mapsto> 5, ''B'' \<mapsto> 2]],
                 ledger = \<lparr>user_invites = [\<lparr>guild_id = 1, user_id = 9, code = ''A'', uses = 5\<rparr>],
                           join_events = []\<rparr>,
                 rewards_config = [], add_roles_calls = []\<rparr> 1)
     [\<lparr>inv_code = ''A'', inv_uses = Some 5\<rparr>, \<lparr>inv_code = ''B'', inv_uses = Some 2\<rparr>] = None
   \<and> ledger (snd (on_member_join
        \<lparr>guild_ident = 1, role_exists = \<lambda>r. True, member_exists = \<lambda>u. True,
         member_has_role = \<lambda>u r. False\<rparr> 7
        (Fetched [\<lparr>inv_code = ''A'', inv_uses = Some 5\<rparr>, \<lparr>inv_code = ''B'', inv_uses = Some 2\<rparr>])
        100
        \<lparr>invites_cache = [1 \<mapsto> [''A'' \<mapsto> 5, ''B'' \<mapsto> 2]],
         ledger = \<lparr>user_invites = [\<lparr>guild_id = 1, user_id = 9, code = ''A'', uses = 5\<rparr>],
                   join_events = []\<rparr>,
         rewards_config = [], add_roles_calls = []\<rparr>)) =
       \<lparr>user_invites = [\<lparr>guild_id = 1, user_id = 9, code = ''A'', uses = 5\<rparr>], join_events = []\<rparr>"
  using no_increase_no_attribution
    [of "[\<lparr>inv_code = ''A'', inv_uses = Some 5\<rparr>, \<lparr>inv_code = ''B'', inv_uses = Some 2\<rparr>]"
        "\<lparr>invites_cache = [1 \<mapsto> [''A'' \<mapsto> 5, ''B'' \<mapsto> 2]],
          ledger = \<lparr>user_invites = [\<lparr>guild_id = 1, user_id = 9, code = ''A'', uses = 5\<rparr>],
                    join_events = []\<rparr>,
          rewards_config = [], add_roles_calls = []\<rparr>"
        "\<lparr>guild_ident = 1, role_exists = \<lambda>r. True, member_exists = \<lambda>u. True,
          member_has_role = \<lambda>u r. False\<rparr>" 7 100]
  by (simp add: cache_get_def uses_or_0_def)

text \<open>
  Claim C10. When the handler resolves a join to a code that has no row in
  \<^verbatim>\<open>user_invites\<close> (the handler takes a join as resolved when \<^verbatim>\<open>used_code\<close> is a
  non-empty string), it appends the join event for that code, leaves every stored use
  count as it was, and calls \<^verbatim>\<open>add_roles\<close> for nobody.
\<close>

theorem unregistered_code_join_event_only:
  assumes "resolveJoin (cache_get st (guild_ident gd)) invs = Some c"
    and "c \<noteq> []"
    and "\<not> list_ex (\<lambda>r. code r = c) (user_invites (ledger st))"
  shows "ledger (snd (on_member_join gd m (Fetched invs) now st)) =
      (ledger st)\<lparr>join_events := join_events (ledger st) @
         [\<lparr>ev_guild_id = guild_ident gd, joined_user_id = m, inviter_code = c, ts = now\<rparr>]\<rparr>
    \<and> user_invites (ledger (snd (on_member_join gd m (Fetched invs) now st))) =
        user_invites (ledger st)
    \<and> add_roles_calls (snd (on_member_join gd m (Fetched invs) now st)) = add_roles_calls st
    \<and> fst (on_member_join gd m (Fetched invs) now st) = None"
proof -
  let ?st2 = "st\<lparr>invites_cache := (invites_cache st)(guild_ident gd \<mapsto> snapshot_of invs),
           ledger := increment_code_use (ledger st) (guild_ident gd) c m now\<rparr>"
  have inc: "increment_code_use (ledger st) (guild_ident gd) c m now =
      (ledger st)\<lparr>join_events := join_events (ledger st) @
         [\<lparr>ev_guild_id = guild_ident gd, joined_user_id = m, inviter_code = c, ts = now\<rparr>]\<rparr>"
    by (rule increment_unregistered[OF assms(3)])
  have "\<not> list_ex (\<lambda>r. code r = c) (user_invites (ledger ?st2))"
    using assms(3) by (simp add: inc)
  then have "select_inviter (ledger ?st2) (guild_ident gd) c = None"
    by (rule select_inviter_none)
  then have "reward_inviter gd c ?st2 = (None, ?st2)" by (rule reward_inviter_no_row)
  then have "on_member_join gd m (Fetched invs) now st = (None, ?st2)"
    by (simp only: on_member_join_resolved[OF assms(1,2)])
  then show ?thesis by (simp add: inc)
qed

theorem unregistered_code_join_event_only_witness:
  "resolveJoin
     (cache_get (create_public_invite 1 \<lparr>inv_code = ''P'', inv_uses = Some 0\<rparr>
        \<lparr>invites_cache = Map.empty,
         ledger = \<lparr>user_invites = [\<lparr>guild_id = 1, user_id = 9, code = ''A'', uses = 5\<rparr>],
                   join_events = []\<rparr>,
         rewards_config = [(''1'', [(''1'', 42)])], add_roles_calls = []\<rparr>) 1)
     [\<lparr>inv_code = ''P'', inv_uses = Some 1\<rparr>] = Some ''P''
   \<and> ledger (snd (on_member_join
        \<lparr>guild_ident = 1, role_exists = \<lambda>r. True, member_exists = \<lambda>u. True,
         member_has_role = \<lambda>u r. False\<rparr> 7
        (Fetched [\<lparr>inv_code = ''P'', inv_uses = Some 1\<rparr>]) 100
        (create_public_invite 1 \<lparr>inv_code = ''P'', inv_uses = Some 0\<rparr>
          \<lparr>invites_cache = Map.empty,
           ledger = \<lparr>user_invites = [\<lparr>guild_id = 1, user_id = 9, code = ''A'', uses = 5\<rparr>],
                     join_events = []\<rparr>,
           rewards_config = [(''1'', [(''1'', 42)])], add_roles_calls = []\<rparr>))) =
       \<lparr>user_invites = [\<lparr>guild_id = 1, user_id = 9, code = ''A'', uses = 5\<rparr>],
        join_events = [\<lparr>ev_guild_id = 1, joined_user_id = 7, inviter_code = ''P'', ts = 100\<rparr>]\<rparr>
   \<and> add_roles_calls (snd (on_member_join
        \<lparr>guild_ident = 1, role_exists = \<lambda>r. True, member_exists = \<lambda>u. True,
         member_has_role = \<lambda>u r. False\<rparr> 7
        (Fetched [\<lparr>inv_code = ''P'', inv_uses = Some 1\<rparr>]) 100
        (create_public_invite 1 \<lparr>inv_code = ''P'', inv_uses = Some 0\<rparr>
          \<lparr>invites_cache = Map.empty,
           ledger = \<lparr>user_invites = [\<lparr>guild_id = 1, user_id = 9, code = ''A'', uses = 5\<rparr>],
                     join_events = []\<rparr>,
           rewards_config = [(''1'', [(''1'', 42)])], add_roles_calls = []\<rparr>))) = []"
  using unregistered_code_join_event_only
    [of "create_public_invite 1 \<lparr>inv_code = ''P'', inv_uses = Some 0\<rparr>
          \<lparr>invites_cache = Map.empty,
           ledger = \<lparr>user_invites = [\<lparr>guild_id = 1, user_id = 9, code = ''A'', uses = 5\<rparr>],
                     join_events = []\<rparr>,
           rewards_config = [(''1'', [(''1'', 42)])], add_roles_calls = []\<rparr>"
        "\<lparr>guild_ident = 1, role_exists = \<lambda>r. True, member_exists = \<lambda>u. True,
          member_has_role = \<lambda>u r. False\<rparr>"
        "[\<lparr>inv_code = ''P'', inv_uses = Some 1\<rparr>]" "''P''" 7 100]
  by (simp add: create_public_invite_def cache_note_invite_def cache_get_def uses_or_0_def)

text \<open>
  Claim C9, as the code has it. After \<^verbatim>\<open>refresh_guild_invites\<close> met
  \<^verbatim>\<open>discord.Forbidden\<close> the snapshot of the guild is empty. In any state, a join whose
  own fetch is refused or fails changes nothing. While the snapshot of the guild is
  empty, a join whose fetch succeeds is resolved to the first listed invite with a use
  count above 0: when that invite's code is a non-empty string its join event is
  appended, and when no listed invite has a use count above 0 the ledger stays as it
  was. A join whose fetch succeeds always replaces the snapshot by the fetched list.
\<close>

theorem degraded_snapshot_resolution:
  "cache_get (refresh_guild_invites g Forbidden st) g = Map.empty
   \<and> on_member_join gd m Forbidden now st' = (None, st')
   \<and> on_member_join gd m Failed now st' = (None, st')
   \<and> (cache_get st' (guild_ident gd) = Map.empty \<longrightarrow>
        resolveJoin (cache_get st' (guild_ident gd)) invs =
          map_option inv_code (find (\<lambda>iv. 0 < uses_or_0 iv) invs))
   \<and> (cache_get st' (guild_ident gd) = Map.empty \<longrightarrow>
        find (\<lambda>iv. 0 < uses_or_0 iv) invs = Some iv0 \<longrightarrow> inv_code iv0 \<noteq> [] \<longrightarrow>
        join_events (ledger (snd (on_member_join gd m (Fetched invs) now st'))) =
          join_events (ledger st') @
            [\<lparr>ev_guild_id = guild_ident gd, joined_user_id = m, inviter_code = inv_code iv0,
              ts = now\<rparr>])
   \<and> (cache_get st' (guild_ident gd) = Map.empty \<longrightarrow>
        find (\<lambda>iv. 0 < uses_or_0 iv) invs = None \<longrightarrow>
        ledger (snd (on_member_join gd m (Fetched invs) now st')) = ledger st')
   \<and> invites_cache (snd (on_member_join gd m (Fetched invs) now st')) (guild_ident gd) =
        Some (snapshot_of invs)"
proof (intro conjI impI)
  show "cache_get (refresh_guild_invites g Forbidden st) g = Map.empty"
    by (rule cache_get_degraded)
  show "on_member_join gd m Forbidden now st' = (None, st')"
    by (simp add: on_member_join_def)
  show "on_member_join gd m Failed now st' = (None, st')"
    by (simp add: on_member_join_def)
  show "invites_cache (snd (on_member_join gd m (Fetched invs) now st')) (guild_ident gd) =
        Some (snapshot_of invs)"
    by (rule on_member_join_cache)
next
  assume e: "cache_get st' (guild_ident gd) = Map.empty"
  show "resolveJoin (cache_get st' (guild_ident gd)) invs =
          map_option inv_code (find (\<lambda>iv. 0 < uses_or_0 iv) invs)"
    by (simp only: e resolveJoin_empty)
next
  assume e: "cache_get st' (guild_ident gd) = Map.empty"
    and f: "find (\<lambda>iv. 0 < uses_or_0 iv) invs = Some iv0" and ne: "inv_code iv0 \<noteq> []"
  have r: "resolveJoin (cache_get st' (guild_ident gd)) invs = Some (inv_code iv0)"
    by (simp add: e resolveJoin_empty f)
  have "ledger (snd (on_member_join gd m (Fetched invs) now st')) =
      increment_code_use (ledger st') (guild_ident gd) (inv_code iv0) m now"
    by (simp add: on_member_join_resolved[OF r ne] reward_inviter_ledger)
  then show "join_events (ledger (snd (on_member_join gd m (Fetched invs) now st'))) =
          join_events (ledger st') @
            [\<lparr>ev_guild_id = guild_ident gd, joined_user_id = m, inviter_code = inv_code iv0,
              ts = now\<rparr>]"
    by (simp add: increment_events)
next
  assume e: "cache_get st' (guild_ident gd) = Map.empty"
    and f: "find (\<lambda>iv. 0 < uses_or_0 iv) invs = None"
  have r: "resolveJoin (cache_get st' (guild_ident gd)) invs = None"
    by (simp add: e resolveJoin_empty f)
  show "ledger (snd (on_member_join gd m (Fetched invs) now st')) = ledger st'"
    by (simp add: on_member_join_unresolved[OF r])
qed

theorem degraded_snapshot_resolution_witness:
  "cache_get (refresh_guild_invites 1 Forbidden
      \<lparr>invites_cache = [1 \<mapsto> [''B'' \<mapsto> 3]],
       ledger = \<lparr>user_invites = [], join_events = []\<rparr>,
       rewards_config = [], add_roles_calls = []\<rparr>) 1 = Map.empty
   \<and> find (\<lambda>iv. 0 < uses_or_0 iv)
        [\<lparr>inv_code = ''Z'', inv_uses = Some 0\<rparr>, \<lparr>inv_code = ''B'', inv_uses = Some 3\<rparr>] =
       Some \<lparr>inv_code = ''B'', inv_uses = Some 3\<rparr>
   \<and> join_events (ledger (snd (on_member_join
        \<lparr>guild_ident = 1, role_exists = \<lambda>r. True, member_exists = \<lambda>u. True,
         member_has_role = \<lambda>u r. False\<rparr> 7
        (Fetched [\<lparr>inv_code = ''Z'', inv_uses = Some 0\<rparr>, \<lparr>inv_code = ''B'', inv_uses = Some 3\<rparr>])
        100
        (refresh_guild_invites 1 Forbidden
          \<lparr>invites_cache = [1 \<mapsto> [''B'' \<mapsto> 3]],
           ledger = \<lparr>user_invites = [], join_events = []\<rparr>,
           rewards_config = [], add_roles_calls = []\<rparr>)))) =
       [\<lparr>ev_guild_id = 1, joined_user_id = 7, inviter_code = ''B'', ts = 100\<rparr>]
   \<and> find (\<lambda>iv. 0 < uses_or_0 iv) [\<lparr>inv_code = ''Z'', inv_uses = Some 0\<rparr>] = None
   \<and> ledger (snd (on_member_join
        \<lparr>guild_ident = 1, role_exists = \<lambda>r. True, member_exists = \<lambda>u. True,
         member_has_role = \<lambda>u r. False\<rparr> 7
        (Fetched [\<lparr>inv_code = ''Z'', inv_uses = Some 0\<rparr>]) 100
        (refresh_guild_invites 1 Forbidden
          \<lparr>invites_cache = [1 \<mapsto> [''B'' \<mapsto> 3]],
           ledger = \<lparr>user_invites = [], join_events = []\<rparr>,
           rewards_config = [], add_roles_calls = []\<rparr>))) =
       \<lparr>user_invites = [], join_events = []\<rparr>"
proof -
  have e: "cache_get (refresh_guild_invites 1 Forbidden
      \<lparr>invites_cache = [1 \<mapsto> [''B'' \<mapsto> 3]],
       ledger = \<lparr>user_invites = [], join_events = []\<rparr>,
       rewards_config = [], add_roles_calls = []\<rparr>) 1 = Map.empty"
    by (rule cache_get_degraded)
  show ?thesis
    using e degraded_snapshot_resolution
      [of 1 "\<lparr>invites_cache = [1 \<mapsto> [''B'' \<mapsto> 3]],
           ledger = \<lparr>user_invites = [], join_events = []\<rparr>,
           rewards_config = [], add_roles_calls = []\<rparr>"
        "\<lparr>guild_ident = 1, role_exists = \<lambda>r. True, member_exists = \<lambda>u. True,
          member_has_role = \<lambda>u r. False\<rparr>" 7 100
        "refresh_guild_invites 1 Forbidden
          \<lparr>invites_cache = [1 \<mapsto> [''B'' \<mapsto> 3]],
           ledger = \<lparr>user_invites = [], join_events = []\<rparr>,
           rewards_config = [], add_roles_calls = []\<rparr>"
        "[\<lparr>inv_code = ''Z'', inv_uses = Some 0\<rparr>, \<lparr>inv_code = ''B'', inv_uses = Some 3\<rparr>]"
        "\<lparr>inv_code = ''B'', inv_uses = Some 3\<rparr>"]
      degraded_snapshot_resolution
      [of 1 "\<lparr>invites_cache = [1 \<mapsto> [''B'' \<mapsto> 3]],
           ledger = \<lparr>user_invites = [], join_events = []\<rparr>,
           rewards_config = [], add_roles_calls = []\<rparr>"
        "\<lparr>guild_ident = 1, role_exists = \<lambda>r. True, member_exists = \<lambda>u. True,
          member_has_role = \<lambda>u r. False\<rparr>" 7 100
        "refresh_guild_invites 1 Forbidden
          \<lparr>invites_cache = [1 \<mapsto> [''B'' \<mapsto> 3]],
           ledger = \<lparr>user_invites = [], join_events = []\<rparr>,
           rewards_config = [], add_roles_calls = []\<rparr>"
        "[\<lparr>inv_code = ''Z'', inv_uses = Some 0\<rparr>]"]
    by (simp add: uses_or_0_def refresh_ledger)
qed

text \<open>
  A join right after the failed refresh is attributed: the snapshot held A:5, the refresh
  emptied it, and the next join, with A still listed at 5 uses, is booked on A.
\<close>

theorem degraded_mode_attributes_counterexample:
  "cache_get (refresh_guild_invites 1 Forbidden
      \<lparr>invites_cache = [1 \<mapsto> [''A'' \<mapsto> 5]],
       ledger = \<lparr>user_invites = [\<lparr>guild_id = 1, user_id = 9, code = ''A'', uses = 5\<rparr>],
                 join_events = []\<rparr>,
       rewards_config = [], add_roles_calls = []\<rparr>) 1 ''A'' = None
   \<and> resolveJoin (cache_get (refresh_guild_invites 1 Forbidden
      \<lparr>invites_cache = [1 \<mapsto> [''A'' \<mapsto> 5]],
       ledger = \<lparr>user_invites = [\<lparr>guild_id = 1, user_id = 9, code = ''A'', uses = 5\<rparr>],
                 join_events = []\<rparr>,
       rewards_config = [], add_roles_calls = []\<rparr>) 1)
      [\<lparr>inv_code = ''A'', inv_uses = Some 5\<rparr>] = Some ''A''
   \<and> ledger (snd (on_member_join
        \<lparr>guild_ident = 1, role_exists = \<lambda>r. True, member_exists = \<lambda>u. True,
         member_has_role = \<lambda>u r. False\<rparr> 7
        (Fetched [\<lparr>inv_code = ''A'', inv_uses = Some 5\<rparr>]) 100
        (refresh_guild_invites 1 Forbidden
          \<lparr>invites_cache = [1 \<mapsto> [''A'' \<mapsto> 5]],
           ledger = \<lparr>user_invites = [\<lparr>guild_id = 1, user_id = 9, code = ''A'', uses = 5\<rparr>],
                     join_events = []\<rparr>,
           rewards_config = [], add_roles_calls = []\<rparr>))) =
       \<lparr>user_invites = [\<lparr>guild_id = 1, user_id = 9, code = ''A'', uses = 6\<rparr>],
        join_events = [\<lparr>ev_guild_id = 1, joined_user_id = 7, inviter_code = ''A'', ts = 100\<rparr>]\<rparr>"
  by (simp add: refresh_guild_invites_def cache_get_def uses_or_0_def on_member_join_def
      Let_def reward_inviter_def select_inviter_def get_member_total_referrals_def
      sql_sum_uses_def coalesce0_def next_award_roles_for_def increment_code_use_eq
      sql_update_uses_def sql_insert_join_event_def)

section \<open>Properties of the rewards configuration\<close>

lemma convert_guilds_valid:
  "list_all (\<lambda>(g, m). \<not> isl (convert_mapping m)) items \<Longrightarrow>
   convert_guilds items = Inr (map (\<lambda>(g, m). (g, projr (convert_mapping m))) items)"
proof (induction items)
  case Nil
  then show ?case by simp
next
  case (Cons a items)
  obtain g m where a: "a = (g, m)" by (cases a)
  from Cons.prems a have v: "\<not> isl (convert_mapping m)"
    and rest: "list_all (\<lambda>(g, m). \<not> isl (convert_mapping m)) items" by simp_all
  from v obtain mp where mp: "convert_mapping m = Inr mp" by (cases "convert_mapping m") simp_all
  show ?case using Cons.IH[OF rest] by (simp add: a mp)
qed

lemma convert_guilds_invalid:
  "\<not> list_all (\<lambda>(g, m). \<not> isl (convert_mapping m)) items \<Longrightarrow>
   \<exists>e. convert_guilds items = Inl e"
proof (induction items)
  case Nil
  then show ?case by simp
next
  case (Cons a items)
  obtain g m where a: "a = (g, m)" by (cases a)
  show ?case
  proof (cases "convert_mapping m")
    case (Inl e)
    then show ?thesis by (simp add: a)
  next
    case (Inr mp)
    with Cons.prems a have "\<not> list_all (\<lambda>(g, m). \<not> isl (convert_mapping m)) items" by simp
    from Cons.IH[OF this] obtain e where "convert_guilds items = Inl e" ..
    then show ?thesis by (simp add: a Inr)
  qed
qed

lemma those_map_Some:
  "\<forall>x\<in>set xs. f x \<noteq> None \<Longrightarrow> those (map f xs) = Some (map (\<lambda>x. the (f x)) xs)"
  by (induction xs) auto

lemma roles_for_total:
  "\<forall>t\<in>set thrs. map_of mapping (py_str t) \<noteq> None \<Longrightarrow> \<exists>rs. roles_for mapping thrs = Inr rs"
proof (induction thrs)
  case Nil
  then show ?case by simp
next
  case (Cons t thrs)
  then obtain role where role: "map_of mapping (py_str t) = Some role" by auto
  from Cons obtain rs where "roles_for mapping thrs = Inr rs" by auto
  then show ?case by (simp add: role)
qed

lemma next_award_unconfigured:
  "map_of R (py_str g) = None \<Longrightarrow> next_award_roles_for R g tot = Inr (None, [])"
  by (simp add: next_award_roles_for_def)

lemma next_award_configured:
  assumes cfg: "map_of R (py_str g) = Some mapping"
    and canon: "\<forall>(k, v)\<in>set mapping. \<exists>n. py_int k = Some n \<and> py_str n = k"
  shows "next_award_roles_for R g tot =
     (let eligible = filter (\<lambda>t. t \<le> tot) (sort (map (\<lambda>(k, v). the (py_int k)) mapping))
      in if eligible = [] then Inr (None, [])
         else case map_of mapping (py_str (Max (set eligible))) of
                None \<Rightarrow> Inl KeyError
              | Some role \<Rightarrow>
                  (case roles_for mapping eligible of
                     Inl e \<Rightarrow> Inl e
                   | Inr rs \<Rightarrow> Inr (Some role, rs)))"
proof (cases "mapping = []")
  case True
  then show ?thesis using cfg by (simp add: next_award_roles_for_def)
next
  case False
  have "\<forall>x\<in>set mapping. (\<lambda>(k, v). py_int k) x \<noteq> None" using canon by fastforce
  then have "those (map (\<lambda>(k, v). py_int k) mapping) =
      Some (map (\<lambda>x. the ((\<lambda>(k, v). py_int k) x)) mapping)"
    by (rule those_map_Some)
  moreover have "map (\<lambda>x. the ((\<lambda>(k, v). py_int k) x)) mapping =
      map (\<lambda>(k, v). the (py_int k)) mapping"
    by (rule map_cong) (auto split: prod.split)
  ultimately have th: "those (map (\<lambda>(k, v). py_int k) mapping) =
      Some (map (\<lambda>(k, v). the (py_int k)) mapping)" by simp
  show ?thesis using False cfg by (simp add: next_award_roles_for_def th Let_def)
qed

lemma eligible_set:
  "set (filter (\<lambda>t. t \<le> tot) (sort (map (\<lambda>(k, v). the (py_int k)) mapping))) =
     {n. n \<le> tot \<and> (\<exists>(k, v)\<in>set mapping. n = the (py_int k))}"
  by (auto simp: image_iff split: prod.splits)

lemma convert_items_valid:
  "list_all (\<lambda>(k, v). \<not> isl (int_of_json v)) kvs \<Longrightarrow>
   convert_items kvs = Inr (map (\<lambda>(k, v). (k, projr (int_of_json v))) kvs)"
proof (induction kvs)
  case Nil
  then show ?case by simp
next
  case (Cons a kvs)
  obtain k v where a: "a = (k, v)" by (cases a)
  from Cons.prems a have ok: "\<not> isl (int_of_json v)"
    and rest: "list_all (\<lambda>(k, v). \<not> isl (int_of_json v)) kvs" by simp_all
  from ok obtain n where n: "int_of_json v = Inr n" by (cases "int_of_json v") simp_all
  show ?case using Cons.IH[OF rest] by (simp add: a n)
qed

lemma convert_items_invalid:
  "\<not> list_all (\<lambda>(k, v). \<not> isl (int_of_json v)) kvs \<Longrightarrow> isl (convert_items kvs)"
proof (induction kvs)
  case Nil
  then show ?case by simp
next
  case (Cons a kvs)
  obtain k v where a: "a = (k, v)" by (cases a)
  show ?case
  proof (cases "int_of_json v")
    case (Inl e)
    then show ?thesis by (simp add: a)
  next
    case (Inr n)
    with Cons.prems a have "\<not> list_all (\<lambda>(k, v). \<not> isl (int_of_json v)) kvs" by simp
    from Cons.IH[OF this] obtain e where "convert_items kvs = Inl e"
      by (cases "convert_items kvs") simp_all
    then show ?thesis by (simp add: a Inr)
  qed
qed

lemma convert_mapping_valid_iff:
  "\<not> isl (convert_mapping m) \<longleftrightarrow>
     (\<exists>kvs. m = JObj kvs \<and> list_all (\<lambda>(k, v). \<not> isl (int_of_json v)) kvs)"
proof (cases m)
  case (JObj kvs)
  show ?thesis
  proof (cases "list_all (\<lambda>(k, v). \<not> isl (int_of_json v)) kvs")
    case True
    then show ?thesis by (simp add: JObj convert_mapping_def convert_items_valid[OF True])
  next
    case False
    then show ?thesis using convert_items_invalid[OF False] by (simp add: JObj convert_mapping_def)
  qed
qed (simp_all add: convert_mapping_def)

section \<open>Claims about the rewards configuration\<close>

text \<open>
  Claim C6, as the code has it. A guild with no configured mapping gets no role. For a
  guild whose threshold keys are canonical decimal integers (\<^verbatim>\<open>str(int(k)) == k\<close> for
  every key), \<^verbatim>\<open>next_award_roles_for\<close> returns no role when every threshold is above
  the total, and otherwise the role stored under the greatest threshold that is at most
  the total. For the thresholds 5 and 10 the totals 4, 5, 9 and 10 give none, the role
  of 5, the role of 5 and the role of 10.
\<close>

theorem nextRole_highest_threshold:
  "(map_of R (py_str g) = None \<longrightarrow> next_award_roles_for R g tot = Inr (None, []))
   \<and> (map_of R (py_str g) = Some mapping \<longrightarrow>
        (\<forall>(k, v)\<in>set mapping. \<exists>n. py_int k = Some n \<and> py_str n = k) \<longrightarrow>
        (\<forall>(k, v)\<in>set mapping. \<forall>n. py_int k = Some n \<longrightarrow> tot < n) \<longrightarrow>
        next_award_roles_for R g tot = Inr (None, []))
   \<and> (map_of R (py_str g) = Some mapping \<longrightarrow>
        (\<forall>(k, v)\<in>set mapping. \<exists>n. py_int k = Some n \<and> py_str n = k) \<longrightarrow>
        map_of mapping key = Some role \<longrightarrow> py_int key = Some best \<longrightarrow> best \<le> tot \<longrightarrow>
        (\<forall>(k, v)\<in>set mapping. \<forall>n. py_int k = Some n \<longrightarrow> n \<le> tot \<longrightarrow> n \<le> best) \<longrightarrow>
        (\<exists>rs. next_award_roles_for R g tot = Inr (Some role, rs)))
   \<and> next_award_roles_for [(''1'', [(''5'', 100), (''10'', 200)])] 1 4 = Inr (None, [])
   \<and> next_award_roles_for [(''1'', [(''5'', 100), (''10'', 200)])] 1 5 = Inr (Some 100, [100])
   \<and> next_award_roles_for [(''1'', [(''5'', 100), (''10'', 200)])] 1 9 = Inr (Some 100, [100])
   \<and> next_award_roles_for [(''1'', [(''5'', 100), (''10'', 200)])] 1 10 =
        Inr (Some 200, [100, 200])"
proof (intro conjI impI)
  assume "map_of R (py_str g) = None"
  then show "next_award_roles_for R g tot = Inr (None, [])" by (rule next_award_unconfigured)
next
  assume cfg: "map_of R (py_str g) = Some mapping"
    and canon: "\<forall>(k, v)\<in>set mapping. \<exists>n. py_int k = Some n \<and> py_str n = k"
    and above: "\<forall>(k, v)\<in>set mapping. \<forall>n. py_int k = Some n \<longrightarrow> tot < n"
  have "set (filter (\<lambda>t. t \<le> tot) (sort (map (\<lambda>(k, v). the (py_int k)) mapping))) = {}"
    unfolding eligible_set using canon above by fastforce
  then have "filter (\<lambda>t. t \<le> tot) (sort (map (\<lambda>(k, v). the (py_int k)) mapping)) = []"
    by (simp only: set_empty)
  then show "next_award_roles_for R g tot = Inr (None, [])"
    by (simp add: next_award_configured[OF cfg canon])
next
  assume cfg: "map_of R (py_str g) = Some mapping"
    and canon: "\<forall>(k, v)\<in>set mapping. \<exists>n. py_int k = Some n \<and> py_str n = k"
    and role: "map_of mapping key = Some role"
    and key: "py_int key = Some best"
    and le: "best \<le> tot"
    and top: "\<forall>(k, v)\<in>set mapping. \<forall>n. py_int k = Some n \<longrightarrow> n \<le> tot \<longrightarrow> n \<le> best"
  define eligible where
    "eligible = filter (\<lambda>t. t \<le> tot) (sort (map (\<lambda>(k, v). the (py_int k)) mapping))"
  have el: "set eligible = {n. n \<le> tot \<and> (\<exists>(k, v)\<in>set mapping. n = the (py_int k))}"
    unfolding eligible_def by (rule eligible_set)
  have mem: "(key, role) \<in> set mapping" using role by (rule map_of_SomeD)
  have "best \<in> set eligible" unfolding el using mem key le by force
  then have ne: "eligible \<noteq> []" by auto
  have ub: "\<forall>y\<in>set eligible. y \<le> best"
  proof
    fix y assume "y \<in> set eligible"
    then obtain k v where kv: "(k, v) \<in> set mapping" and y: "y = the (py_int k)" and yt: "y \<le> tot"
      unfolding el by auto
    from canon kv obtain n where "py_int k = Some n" by fastforce
    then have "py_int k = Some y" using y by simp
    with top kv yt show "y \<le> best" by fastforce
  qed
  have mx: "Max (set eligible) = best"
    using \<open>best \<in> set eligible\<close> ub by (intro Max_eqI) auto
  from canon mem obtain n0 where "py_int key = Some n0" "py_str n0 = key" by fastforce
  then have str: "py_str best = key" using key by simp
  have "\<forall>t\<in>set eligible. map_of mapping (py_str t) \<noteq> None"
  proof
    fix t assume "t \<in> set eligible"
    then obtain k v where kv: "(k, v) \<in> set mapping" and t: "t = the (py_int k)"
      unfolding el by auto
    from canon kv obtain n where "py_int k = Some n" "py_str n = k" by fastforce
    then have "py_str t = k" using t by simp
    moreover have "k \<in> fst ` set mapping" using kv by force
    ultimately show "map_of mapping (py_str t) \<noteq> None" by (simp add: map_of_eq_None_iff)
  qed
  from roles_for_total[OF this] obtain rs where rs: "roles_for mapping eligible = Inr rs" ..
  have "next_award_roles_for R g tot = Inr (Some role, rs)"
    unfolding next_award_configured[OF cfg canon] eligible_def[symmetric]
    using ne by (simp add: mx str role rs)
  then show "\<exists>rs. next_award_roles_for R g tot = Inr (Some role, rs)" ..
next
  show "next_award_roles_for [(''1'', [(''5'', 100), (''10'', 200)])] 1 4 = Inr (None, [])"
    by code_simp
  show "next_award_roles_for [(''1'', [(''5'', 100), (''10'', 200)])] 1 5 = Inr (Some 100, [100])"
    by code_simp
  show "next_award_roles_for [(''1'', [(''5'', 100), (''10'', 200)])] 1 9 = Inr (Some 100, [100])"
    by code_simp
  show "next_award_roles_for [(''1'', [(''5'', 100), (''10'', 200)])] 1 10 =
        Inr (Some 200, [100, 200])"
    by code_simp
qed

theorem nextRole_highest_threshold_witness:
  "map_of [(''7'', [(''3'', 30::int), (''20'', 40), (''8'', 50)])] (py_str 7) =
     Some [(''3'', 30), (''20'', 40), (''8'', 50)]
   \<and> py_int ''8'' = Some 8
   \<and> (\<exists>rs. next_award_roles_for [(''7'', [(''3'', 30), (''20'', 40), (''8'', 50)])] 7 12 =
        Inr (Some 50, rs))
   \<and> next_award_roles_for [(''7'', [(''3'', 30), (''20'', 40), (''8'', 50)])] 7 2 = Inr (None, [])
   \<and> next_award_roles_for [(''7'', [(''3'', 30), (''20'', 40), (''8'', 50)])] 9 12 = Inr (None, [])"
proof -
  have s7: "py_str 7 = ''7''" and s3: "py_str 3 = ''3''" and s8: "py_str 8 = ''8''"
    and s20: "py_str 20 = ''20''" and s9: "py_str 9 = ''9''" by code_simp+
  have i3: "py_int ''3'' = Some 3" and i8: "py_int ''8'' = Some 8"
    and i20: "py_int ''20'' = Some 20" by code_simp+
  show ?thesis
    using nextRole_highest_threshold
      [of "[(''7'', [(''3'', 30), (''20'', 40), (''8'', 50)])]" 7 12
          "[(''3'', 30), (''20'', 40), (''8'', 50)]" "''8''" 50 8]
      nextRole_highest_threshold
      [of "[(''7'', [(''3'', 30), (''20'', 40), (''8'', 50)])]" 7 2
          "[(''3'', 30), (''20'', 40), (''8'', 50)]"]
      nextRole_highest_threshold
      [of "[(''7'', [(''3'', 30), (''20'', 40), (''8'', 50)])]" 9 12]
    by (simp add: s7 s3 s8 s20 s9 i3 i8 i20)
qed

text \<open>
  A key that is an integer but not in canonical form is found by \<^verbatim>\<open>int(t)\<close> and missed
  by \<^verbatim>\<open>mapping[str(best)]\<close>; a key that is no integer makes \<^verbatim>\<open>int(t)\<close> raise, also
  when no threshold is reached.
\<close>

theorem nextRole_noncanonical_key_counterexample:
  "py_int ''05'' = Some 5
   \<and> next_award_roles_for [(''1'', [(''05'', 7)])] 1 5 = Inl KeyError
   \<and> py_int ''gold'' = None
   \<and> next_award_roles_for [(''1'', [(''gold'', 7), (''5'', 8)])] 1 0 = Inl ValueError"
  by code_simp

text \<open>
  Claim C8, as the code has it. The entry of a guild converts exactly when it is an
  object all of whose role values \<^verbatim>\<open>int\<close> accepts; its threshold keys are carried over as
  they are, unchecked. When the parsed text is an object and the entry of every guild
  converts, every entry is loaded and nothing is logged. When the entry of any one guild
  does not convert, the result is the empty configuration, for every guild, with one
  diagnostic; so it is when the text does not parse or is no object. Parsing never
  raises.
\<close>

theorem load_rewards_config_all_or_nothing:
  "(\<not> isl (convert_mapping entry) \<longleftrightarrow>
      (\<exists>kvs. entry = JObj kvs \<and> list_all (\<lambda>(k, v). \<not> isl (int_of_json v)) kvs))
   \<and> (list_all (\<lambda>(k, v). \<not> isl (int_of_json v)) kvs \<longrightarrow>
        convert_mapping (JObj kvs) = Inr (map (\<lambda>(k, v). (k, projr (int_of_json v))) kvs))
   \<and> (json_loads (py_strip env) = Some (JObj items) \<longrightarrow> py_strip env \<noteq> [] \<longrightarrow>
      list_all (\<lambda>(g, m). \<not> isl (convert_mapping m)) items \<longrightarrow>
      load_rewards_config json_loads (Some env) =
        (map (\<lambda>(g, m). (g, projr (convert_mapping m))) items, []))
   \<and> (json_loads (py_strip env) = Some (JObj items) \<longrightarrow> py_strip env \<noteq> [] \<longrightarrow>
      \<not> list_all (\<lambda>(g, m). \<not> isl (convert_mapping m)) items \<longrightarrow>
      (\<exists>e. load_rewards_config json_loads (Some env) = ([], [Invalid_REFERRAL_REWARDS_JSON e])))
   \<and> (json_loads (py_strip env) = None \<longrightarrow> py_strip env \<noteq> [] \<longrightarrow>
      load_rewards_config json_loads (Some env) =
        ([], [Invalid_REFERRAL_REWARDS_JSON JSONDecodeError]))
   \<and> (json_loads (py_strip env) = Some data \<longrightarrow> py_strip env \<noteq> [] \<longrightarrow>
      (\<forall>its. data \<noteq> JObj its) \<longrightarrow>
      load_rewards_config json_loads (Some env) =
        ([], [Invalid_REFERRAL_REWARDS_JSON AttributeError]))
   \<and> (snd (load_rewards_config json_loads getenv) = []
        \<or> (\<exists>e. load_rewards_config json_loads getenv = ([], [Invalid_REFERRAL_REWARDS_JSON e])))"
proof (intro conjI impI)
  show "\<not> isl (convert_mapping entry) \<longleftrightarrow>
      (\<exists>kvs. entry = JObj kvs \<and> list_all (\<lambda>(k, v). \<not> isl (int_of_json v)) kvs)"
    by (rule convert_mapping_valid_iff)
next
  assume v: "list_all (\<lambda>(k, v). \<not> isl (int_of_json v)) kvs"
  show "convert_mapping (JObj kvs) = Inr (map (\<lambda>(k, v). (k, projr (int_of_json v))) kvs)"
    by (simp add: convert_mapping_def convert_items_valid[OF v])
next
  assume p: "json_loads (py_strip env) = Some (JObj items)" and ne: "py_strip env \<noteq> []"
    and v: "list_all (\<lambda>(g, m). \<not> isl (convert_mapping m)) items"
  show "load_rewards_config json_loads (Some env) =
        (map (\<lambda>(g, m). (g, projr (convert_mapping m))) items, [])"
    using p ne by (simp add: load_rewards_config_def parse_rewards_def convert_guilds_valid[OF v])
next
  assume p: "json_loads (py_strip env) = Some (JObj items)" and ne: "py_strip env \<noteq> []"
    and v: "\<not> list_all (\<lambda>(g, m). \<not> isl (convert_mapping m)) items"
  from convert_guilds_invalid[OF v] obtain e where "convert_guilds items = Inl e" ..
  then have "load_rewards_config json_loads (Some env) = ([], [Invalid_REFERRAL_REWARDS_JSON e])"
    using p ne by (simp add: load_rewards_config_def parse_rewards_def)
  then show "\<exists>e. load_rewards_config json_loads (Some env) = ([], [Invalid_REFERRAL_REWARDS_JSON e])" ..
next
  assume "json_loads (py_strip env) = None" and "py_strip env \<noteq> []"
  then show "load_rewards_config json_loads (Some env) =
        ([], [Invalid_REFERRAL_REWARDS_JSON JSONDecodeError])"
    by (simp add: load_rewards_config_def parse_rewards_def)
next
  assume p: "json_loads (py_strip env) = Some data" and ne: "py_strip env \<noteq> []"
    and no: "\<forall>its. data \<noteq> JObj its"
  have "(case data of JObj its \<Rightarrow> convert_guilds its | _ \<Rightarrow> Inl AttributeError) = Inl AttributeError"
    using no by (cases data) simp_all
  then show "load_rewards_config json_loads (Some env) =
        ([], [Invalid_REFERRAL_REWARDS_JSON AttributeError])"
    using p ne by (simp add: load_rewards_config_def parse_rewards_def)
next
  show "snd (load_rewards_config json_loads getenv) = []
        \<or> (\<exists>e. load_rewards_config json_loads getenv = ([], [Invalid_REFERRAL_REWARDS_JSON e]))"
    by (simp add: load_rewards_config_def Let_def split: sum.split)
qed

theorem load_rewards_config_all_or_nothing_witness:
  \<open>load_rewards_config
     (\<lambda>raw. if raw = ''{"1": {"5": 100, "10": "200"}, "2": {"gold": 7}}''
            then Some (JObj [(''1'', JObj [(''5'', JInt 100), (''10'', JStr ''200'')]),
                             (''2'', JObj [(''gold'', JInt 7)])])
            else None)
     (Some '' {"1": {"5": 100, "10": "200"}, "2": {"gold": 7}} '') =
     ([(''1'', [(''5'', 100), (''10'', 200)]), (''2'', [(''gold'', 7)])], [])
   \<and> (\<exists>e. load_rewards_config
          (\<lambda>raw. if raw = ''{"1": {"5": 100}, "2": {"5": null}}''
                 then Some (JObj [(''1'', JObj [(''5'', JInt 100)]),
                                  (''2'', JObj [(''5'', JNull)])])
                 else None)
          (Some ''{"1": {"5": 100}, "2": {"5": null}}'') =
        ([], [Invalid_REFERRAL_REWARDS_JSON e]))
   \<and> load_rewards_config (\<lambda>raw. None) (Some ''{'') =
        ([], [Invalid_REFERRAL_REWARDS_JSON JSONDecodeError])
   \<and> load_rewards_config (\<lambda>raw. if raw = ''[1]'' then Some (JArr [JInt 1]) else None)
        (Some ''[1]'') = ([], [Invalid_REFERRAL_REWARDS_JSON AttributeError])\<close>
proof -
  have strip: \<open>py_strip '' {"1": {"5": 100, "10": "200"}, "2": {"gold": 7}} '' =
      ''{"1": {"5": 100, "10": "200"}, "2": {"gold": 7}}''\<close>
    by (simp add: py_strip_def is_space_def)
  have strip2: \<open>py_strip ''{"1": {"5": 100}, "2": {"5": null}}'' =
      ''{"1": {"5": 100}, "2": {"5": null}}''\<close>
    by (simp add: py_strip_def is_space_def)
  have strip3: "py_strip ''{'' = ''{''" "py_strip ''[1]'' = ''[1]''"
    by (simp_all add: py_strip_def is_space_def)
  have n200: "py_int ''200'' = Some 200" by code_simp
  show ?thesis
    using load_rewards_config_all_or_nothing
      [of _ _ \<open>\<lambda>raw. if raw = ''{"1": {"5": 100, "10": "200"}, "2": {"gold": 7}}''
            then Some (JObj [(''1'', JObj [(''5'', JInt 100), (''10'', JStr ''200'')]),
                             (''2'', JObj [(''gold'', JInt 7)])])
            else None\<close>
          \<open>'' {"1": {"5": 100, "10": "200"}, "2": {"gold": 7}} ''\<close>
          \<open>[(''1'', JObj [(''5'', JInt 100), (''10'', JStr ''200'')]),
            (''2'', JObj [(''gold'', JInt 7)])]\<close>]
      load_rewards_config_all_or_nothing
      [of _ _ \<open>\<lambda>raw. if raw = ''{"1": {"5": 100}, "2": {"5": null}}''
                 then Some (JObj [(''1'', JObj [(''5'', JInt 100)]),
                                  (''2'', JObj [(''5'', JNull)])])
                 else None\<close>
          \<open>''{"1": {"5": 100}, "2": {"5": null}}''\<close>
          \<open>[(''1'', JObj [(''5'', JInt 100)]), (''2'', JObj [(''5'', JNull)])]\<close>]
      load_rewards_config_all_or_nothing [of _ _ \<open>\<lambda>raw. None\<close> \<open>''{''\<close>]
      load_rewards_config_all_or_nothing [of _ _ \<open>\<lambda>raw. if raw = ''[1]'' then Some (JArr [JInt 1]) else None\<close> \<open>''[1]''\<close>
             _ \<open>JArr [JInt 1]\<close>]
    by (simp add: strip strip2 strip3 convert_mapping_def n200)
qed

text \<open>
  One invalid entry drops the valid entry of another guild as well.
\<close>

theorem load_rewards_config_drops_all_counterexample:
  \<open>load_rewards_config
     (\<lambda>raw. if raw = ''{"1": {"5": 100}, "2": {"5": "abc"}}''
            then Some (JObj [(''1'', JObj [(''5'', JInt 100)]),
                             (''2'', JObj [(''5'', JStr ''abc'')])])
            else None)
     (Some ''{"1": {"5": 100}, "2": {"5": "abc"}}'') =
     ([], [Invalid_REFERRAL_REWARDS_JSON ValueError])
   \<and> convert_mapping (JObj [(''5'', JInt 100)]) = Inr [(''5'', 100)]
   \<and> map_of (fst (load_rewards_config
     (\<lambda>raw. if raw = ''{"1": {"5": 100}, "2": {"5": "abc"}}''
            then Some (JObj [(''1'', JObj [(''5'', JInt 100)]),
                             (''2'', JObj [(''5'', JStr ''abc'')])])
            else None)
     (Some ''{"1": {"5": 100}, "2": {"5": "abc"}}''))) ''1'' = None\<close>
proof -
  have strip: \<open>py_strip ''{"1": {"5": 100}, "2": {"5": "abc"}}'' =
      ''{"1": {"5": 100}, "2": {"5": "abc"}}''\<close>
    by (simp add: py_strip_def is_space_def)
  have abc: "py_int ''abc'' = None" by code_simp
  show ?thesis
    by (simp add: load_rewards_config_def parse_rewards_def strip convert_mapping_def abc)
qed

end
